theory Spec2Isabelle
  imports Complex_Main
begin

section \<open>Data model (src/app/page.tsx, lines 19--23)\<close>

text \<open>
  A JavaScript string is a sequence of UTF-16 code units. The model uses HOL's
  \<open>string\<close> and reads each \<open>char\<close> as one code unit in the range 0..255.

  A JavaScript \<open>number\<close> is modelled by the integers together with \<open>NaN\<close>:
  the ids of the \<open>User\<close> type are integers, and \<open>NaN\<close> is what \<open>Number\<close>
  returns on text that is not numeric.
\<close>

datatype number = Num int | NaN

text \<open>\<open>FormValues\<close> (line 151) has the fields \<open>name\<close> and \<open>email\<close>; a
  \<open>User\<close> has these and its \<open>id\<close>.\<close>

record FormValues =
  name :: string
  email :: string

record User = FormValues +
  id' :: number

abbreviation DQ :: char where "DQ \<equiv> CHR 0x22"
abbreviation LF :: char where "LF \<equiv> CHR 0x0A"
abbreviation CR :: char where "CR \<equiv> CHR 0x0D"

section \<open>String primitives of the JavaScript library used by the page\<close>

text \<open>White space of \<open>String.prototype.trim\<close> among the code units below 256:
  TAB, LF, VT, FF, CR, SPACE and NBSP.\<close>

definition is_space :: "char \<Rightarrow> bool" where
  "is_space c = (c \<in> set [CHR 0x09, CHR 0x0A, CHR 0x0B, CHR 0x0C, CHR 0x0D, CHR 0x20, CHR 0xA0])"

definition trim :: "string \<Rightarrow> string" where
  "trim s = rev (dropWhile is_space (rev (dropWhile is_space s)))"

text \<open>\<open>toLowerCase\<close> on the code units below 256: A--Z and the Latin-1 capitals
  (0xC0--0xDE without the multiplication sign 0xD7) move up by 32.\<close>

definition toLowerCase_char :: "char \<Rightarrow> char" where
  "toLowerCase_char c =
     (let n = (of_char c :: nat)
      in if (65 \<le> n \<and> n \<le> 90) \<or> (192 \<le> n \<and> n \<le> 222 \<and> n \<noteq> 215)
         then char_of (n + 32) else c)"

definition toLowerCase :: "string \<Rightarrow> string" where
  "toLowerCase s = map toLowerCase_char s"

text \<open>\<open>s.split(",")\<close>: the accumulator is the piece read so far.\<close>

fun split_comma :: "string \<Rightarrow> string \<Rightarrow> string list" where
  "split_comma cur [] = [cur]"
| "split_comma cur (c # cs) =
     (if c = CHR '','' then cur # split_comma [] cs else split_comma (cur @ [c]) cs)"

text \<open>\<open>s.split(/\r?\n/)\<close>: a line ends at LF or at CR LF; a CR alone is an
  ordinary character.\<close>

fun split_lines :: "string \<Rightarrow> string \<Rightarrow> string list" where
  "split_lines cur [] = [cur]"
| "split_lines cur [c] = (if c = LF then [cur, []] else [cur @ [c]])"
| "split_lines cur (c # d # cs) =
     (if c = LF then cur # split_lines [] (d # cs)
      else if c = CR \<and> d = LF then cur # split_lines [] cs
      else split_lines (cur @ [c]) (d # cs))"

text \<open>\<open>xs.join(sep)\<close>.\<close>

fun join :: "string \<Rightarrow> string list \<Rightarrow> string" where
  "join sep [] = []"
| "join sep [x] = x"
| "join sep (x # y # ys) = x @ sep @ join sep (y # ys)"

text \<open>\<open>xs.indexOf(x)\<close>: the first index of \<open>x\<close>, or \<open>-1\<close>.\<close>

fun indexOf :: "'a list \<Rightarrow> 'a \<Rightarrow> int" where
  "indexOf [] x = -1"
| "indexOf (y # ys) x =
     (if y = x then 0 else (let i = indexOf ys x in if i < 0 then -1 else i + 1))"

text \<open>\<open>String(n)\<close> for a number: the decimal digits of an integer (integers of
  magnitude below \<open>10^21\<close> are printed this way), and \<open>NaN\<close>.\<close>

fun show_nat :: "nat \<Rightarrow> string" where
  "show_nat n =
     (if n < 10 then [char_of (48 + n)] else show_nat (n div 10) @ [char_of (48 + n mod 10)])"

declare show_nat.simps [simp del]

definition String_number :: "number \<Rightarrow> string" where
  "String_number v =
     (case v of
        NaN \<Rightarrow> ''NaN''
      | Num i \<Rightarrow> (if i < 0 then CHR ''-'' # show_nat (nat (- i)) else show_nat (nat i)))"

text \<open>\<open>Number(s)\<close> for a string: white space is trimmed, the empty text is 0, an
  optionally signed run of decimal digits is that integer. Every other text is
  mapped to \<open>NaN\<close>; JavaScript also reads fractions, exponents, radix prefixes and
  \<open>Infinity\<close>, whose values lie outside the integers of this model.\<close>

definition is_digit :: "char \<Rightarrow> bool" where
  "is_digit c = (let n = (of_char c :: nat) in 48 \<le> n \<and> n \<le> 57)"

definition digits_value :: "string \<Rightarrow> nat" where
  "digits_value ds = foldl (\<lambda>acc c. 10 * acc + (of_char c - 48)) 0 ds"

definition Number_str :: "string \<Rightarrow> number" where
  "Number_str s =
     (let t = trim s in
      if t = [] then Num 0
      else
        let neg = (hd t = CHR ''-'');
            ds = (if hd t = CHR ''-'' \<or> hd t = CHR ''+'' then tl t else t)
        in if ds \<noteq> [] \<and> list_all is_digit ds
           then Num (if neg then - int (digits_value ds) else int (digits_value ds))
           else NaN)"

section \<open>CSV helpers (src/app/page.tsx, lines 65--96)\<close>

text \<open>\<open>esc\<close> of \<open>toCSV\<close>: every double quote is doubled and the result is wrapped
  in double quotes.\<close>

definition esc :: "string \<Rightarrow> string" where
  "esc v = DQ # concat (map (\<lambda>c. if c = DQ then [DQ, DQ] else [c]) v) @ [DQ]"

definition toCSV :: "User list \<Rightarrow> string" where
  "toCSV rows =
     join [LF] (''id,name,email'' #
                map (\<lambda>r. join '','' [String_number (id' r), esc (name r), esc (email r)]) rows)"

text \<open>The inner loop of \<open>parseCSV\<close> (lines 80--88): a double quote toggles \<open>inQ\<close>
  and is not kept, a comma outside quotes closes the cell, every other character
  is appended to the current cell.\<close>

fun scan_cells :: "string list \<Rightarrow> string \<Rightarrow> bool \<Rightarrow> string \<Rightarrow> string list" where
  "scan_cells cells cur inQ [] = cells @ [cur]"
| "scan_cells cells cur inQ (ch # rest) =
     (if ch = DQ then scan_cells cells cur (\<not> inQ) rest
      else if ch = CHR '','' \<and> \<not> inQ then scan_cells (cells @ [cur]) [] inQ rest
      else scan_cells cells (cur @ [ch]) inQ rest)"

text \<open>\<open>s.replace(/^"|"$/g, "")\<close>: a leading double quote is removed, then a
  trailing one of what is left.\<close>

definition strip_quotes :: "string \<Rightarrow> string" where
  "strip_quotes s =
     (let s1 = (if s \<noteq> [] \<and> hd s = DQ then tl s else s)
      in if s1 \<noteq> [] \<and> last s1 = DQ then butlast s1 else s1)"

text \<open>\<open>s.replaceAll('""', '"')\<close>: left to right, without overlaps.\<close>

fun unescape :: "string \<Rightarrow> string" where
  "unescape (a # b # cs) =
     (if a = DQ \<and> b = DQ then DQ # unescape cs else a # unescape (b # cs))"
| "unescape cs = cs"

text \<open>\<open>get\<close> (line 89): \<open>None\<close> is \<open>undefined\<close>.\<close>

definition get :: "string list \<Rightarrow> int \<Rightarrow> string option" where
  "get cells i =
     (if i \<ge> 0 then
        (if nat i < length cells then Some (unescape (strip_quotes (cells ! nat i))) else None)
      else None)"

text \<open>One iteration of the loop over the lines (lines 78--94). \<open>x || 0\<close> and
  \<open>x || ""\<close> replace \<open>undefined\<close> and the empty string.\<close>

definition parse_line :: "int \<Rightarrow> int \<Rightarrow> int \<Rightarrow> string \<Rightarrow> User" where
  "parse_line idx_id idx_name idx_email line =
     (let cells = scan_cells [] [] False line in
      \<lparr> name = (case get cells idx_name of None \<Rightarrow> [] | Some s \<Rightarrow> s),
        email = (case get cells idx_email of None \<Rightarrow> [] | Some s \<Rightarrow> s),
        id' = (case get cells idx_id of
                 None \<Rightarrow> Num 0
               | Some s \<Rightarrow> if s = [] then Num 0 else Number_str s) \<rparr>)"

text \<open>The header of a CSV text: \<open>lines.shift()?.split(",").map(h => h.trim().toLowerCase()) ?? []\<close>.\<close>

definition csv_lines :: "string \<Rightarrow> string list" where
  "csv_lines csv = split_lines [] (trim csv)"

definition csv_header :: "string \<Rightarrow> string list" where
  "csv_header csv =
     (case csv_lines csv of
        [] \<Rightarrow> []
      | l # ls \<Rightarrow> map (\<lambda>h. toLowerCase (trim h)) (split_comma [] l))"

definition parseCSV :: "string \<Rightarrow> User list" where
  "parseCSV csv =
     (let header = csv_header csv;
          idx_id = indexOf header ''id'';
          idx_name = indexOf header ''name'';
          idx_email = indexOf header ''email''
      in map (parse_line idx_id idx_name idx_email) (tl (csv_lines csv)))"


section \<open>Derived data: filter, sort, paginate (src/app/page.tsx, lines 255--274)\<close>

datatype sort_key = Key_id | Key_name | Key_email

datatype sort_dir = asc | desc

text \<open>\<open>s.includes(q)\<close>: \<open>q\<close> occurs in \<open>s\<close> as a contiguous piece.\<close>

fun starts_with :: "string \<Rightarrow> string \<Rightarrow> bool" where
  "starts_with s [] = True"
| "starts_with [] (q # qs) = False"
| "starts_with (c # cs) (q # qs) = (c = q \<and> starts_with cs qs)"

fun includes_str :: "string \<Rightarrow> string \<Rightarrow> bool" where
  "includes_str [] q = (q = [])"
| "includes_str (c # cs) q = (starts_with (c # cs) q \<or> includes_str cs q)"

text \<open>The comparator of line 260--264. \<open>collator.compare\<close> depends on the locale of
  the browser and is a parameter. For the numeric column the comparator is
  \<open>Number(A) - Number(B)\<close>; a \<open>NaN\<close> result is read as 0 by \<open>Array.prototype.sort\<close>.\<close>

definition number_diff :: "number \<Rightarrow> number \<Rightarrow> int" where
  "number_diff a b = (case (a, b) of (Num x, Num y) \<Rightarrow> x - y | _ \<Rightarrow> 0)"

definition compare_users ::
  "(string \<Rightarrow> string \<Rightarrow> int) \<Rightarrow> sort_key \<Rightarrow> sort_dir \<Rightarrow> User \<Rightarrow> User \<Rightarrow> int" where
  "compare_users collator sortBy sortDir a b =
     (let cmp = (case sortBy of
                   Key_id \<Rightarrow> number_diff (id' a) (id' b)
                 | Key_name \<Rightarrow> collator (name a) (name b)
                 | Key_email \<Rightarrow> collator (email a) (email b))
      in if sortDir = asc then cmp else - cmp)"

text \<open>\<open>Array.prototype.sort\<close> with a comparator is stable; it is modelled by a
  stable insertion sort.\<close>

fun insert_by :: "('a \<Rightarrow> 'a \<Rightarrow> int) \<Rightarrow> 'a \<Rightarrow> 'a list \<Rightarrow> 'a list" where
  "insert_by cmp x [] = [x]"
| "insert_by cmp x (y # ys) = (if cmp x y \<le> 0 then x # y # ys else y # insert_by cmp x ys)"

definition sort_by :: "('a \<Rightarrow> 'a \<Rightarrow> int) \<Rightarrow> 'a list \<Rightarrow> 'a list" where
  "sort_by cmp xs = foldr (insert_by cmp) xs []"

definition filtered ::
  "(string \<Rightarrow> string \<Rightarrow> int) \<Rightarrow> User list \<Rightarrow> string \<Rightarrow> sort_key \<Rightarrow> sort_dir \<Rightarrow> User list" where
  "filtered collator users query sortBy sortDir =
     (let q = toLowerCase (trim query);
          list = (if q \<noteq> []
                  then filter (\<lambda>u. includes_str (toLowerCase (name u)) q \<or>
                                   includes_str (toLowerCase (email u)) q) users
                  else users)
      in sort_by (compare_users collator sortBy sortDir) list)"








section \<open>Page state, toasts and timers (src/app/page.tsx, lines 98--109 and 158--177)\<close>

datatype toast_type = Success | Error | Info

text \<open>The only action a toast carries is the undo closure of \<open>removeUser\<close>
  (line 315), which holds the record found before the removal, if any.\<close>

datatype toast_action = Undo "User option"

record toast =
  toast_id :: nat
  toast_type :: toast_type
  msg :: string
  actionLabel :: "string option"
  action :: "toast_action option"

text \<open>The state of the page: the React state cells the operations touch, the toast
  counter \<open>idRef\<close>, the pending \<open>setTimeout\<close> callbacks with the time at which each
  is due and the toast it removes, a clock in milliseconds, the entry of the
  module-level \<open>cache\<close> under \<open>API_URL\<close>, and the \<open>users_cache\<close> entry of
  \<open>localStorage\<close> (written only by line 194, read back by \<open>JSON.parse\<close>).

  The toasts are rendered under \<open>AnimatePresence\<close> with an exit animation (lines
  546--549): a toast that has left \<open>items\<close> stays mounted, with its action button,
  until its exit animation has ended. \<open>exiting\<close> holds these toasts, each with the
  time at which it is unmounted.\<close>

record state =
  users :: "User list"
  loading :: bool
  error :: "string option"
  selected :: "number list"
  confirmOpen :: bool
  items :: "toast list"
  idRef :: nat
  timers :: "(nat \<times> nat) list"
  now :: nat
  cache :: "User list option"
  localStorage :: "User list option"
  exiting :: "(nat \<times> toast) list"

text \<open>The state when the page is first mounted.\<close>

definition initial_state :: "User list option \<Rightarrow> state" where
  "initial_state ls =
     \<lparr> users = [], loading = True, error = None, selected = [], confirmOpen = False,
       items = [], idRef = 1, timers = [], now = 0, cache = None, localStorage = ls,
       exiting = [] \<rparr>"

text \<open>\<open>push\<close> (lines 102--107): the toast gets the next id, is appended, and a timer
  that removes it is set 4000 ms ahead.\<close>

definition push :: "toast_type \<Rightarrow> string \<Rightarrow> string option \<Rightarrow> toast_action option \<Rightarrow> state \<Rightarrow> state" where
  "push ty m lbl act st =
     st\<lparr> items := items st @
            [\<lparr> toast_id = idRef st, toast_type = ty, msg = m, actionLabel = lbl, action = act \<rparr>],
         idRef := idRef st + 1,
         timers := timers st @ [(now st + 4000, idRef st)] \<rparr>"

text \<open>The callback of a timer (line 106), run at time \<open>d\<close>: the toast leaves
  \<open>items\<close> and starts its exit animation. How long an exiting toast stays mounted is
  decided by the animation library; it is the parameter \<open>exit_ms\<close>.\<close>

definition expire :: "nat \<Rightarrow> nat \<Rightarrow> nat \<Rightarrow> state \<Rightarrow> state" where
  "expire exit_ms d i st =
     st\<lparr> items := filter (\<lambda>x. toast_id x \<noteq> i) (items st),
         exiting := exiting st @
                    map (\<lambda>x. (d + exit_ms, x)) (filter (\<lambda>x. toast_id x = i) (items st)) \<rparr>"

text \<open>Time passes: the clock moves on by \<open>dt\<close>, every timer that is due runs once,
  at its due time, and is discarded, and the exiting toasts whose animation has ended
  are unmounted.\<close>

definition advance :: "nat \<Rightarrow> nat \<Rightarrow> state \<Rightarrow> state" where
  "advance exit_ms dt st =
     (let t = now st + dt;
          due = filter (\<lambda>(d, i). d \<le> t) (timers st);
          st1 = st\<lparr> now := t, timers := filter (\<lambda>(d, i). \<not> d \<le> t) (timers st) \<rparr>;
          st2 = foldl (\<lambda>s (d, i). expire exit_ms d i s) st1 due
      in st2\<lparr> exiting := filter (\<lambda>(u, x). t < u) (exiting st2) \<rparr>)"

text \<open>The toasts that are mounted: those in \<open>items\<close> and those that are exiting.\<close>

definition mounted :: "state \<Rightarrow> toast list" where
  "mounted st = items st @ map snd (exiting st)"

text \<open>Running a toast's action (line 315): \<open>if (removed) setUsers(v => [removed, ...v])\<close>.\<close>

definition run_action :: "toast_action \<Rightarrow> state \<Rightarrow> state" where
  "run_action a st =
     (case a of
        Undo None \<Rightarrow> st
      | Undo (Some removed) \<Rightarrow> st\<lparr> users := removed # users st \<rparr>)"

text \<open>A click on the action button of toast \<open>i\<close>. The button is there for a
  mounted toast that has an action and a non-empty label
  (\<open>t.action && t.actionLabel\<close>, line 553); \<open>None\<close> says that there is no such
  button to click.\<close>

definition click_action :: "nat \<Rightarrow> state \<Rightarrow> state option" where
  "click_action i st =
     (case find (\<lambda>t. toast_id t = i) (mounted st) of
        None \<Rightarrow> None
      | Some t \<Rightarrow>
          (case (action t, actionLabel t) of
             (Some a, Some l) \<Rightarrow> if l = [] then None else Some (run_action a st)
           | _ \<Rightarrow> None))"

section \<open>Remote calls and the operations of the page (src/app/page.tsx, lines 182--338)\<close>

text \<open>What a \<open>fetch\<close> settles to: the promise is rejected with an error message, or
  it resolves to a response with a status and a body. The body is \<open>Inr v\<close> when
  \<open>res.json()\<close> yields \<open>v\<close> and \<open>Inl m\<close> when \<open>res.json()\<close> is rejected with
  message \<open>m\<close>.

  An \<open>async\<close> operation runs up to its \<open>await\<close>, and its remainder runs when the
  call has settled; other operations may run in between. Each operation is therefore
  two functions: \<open>_begin\<close> returns what the closure has captured together with the
  state after the synchronous part, and \<open>_resolve\<close> takes the captured values, the
  outcome of the call and the state at that later moment. The constant \<open>users\<close> of
  a closure is the list of the render in which the handler was invoked, which is
  the state at the time of \<open>_begin\<close>.\<close>

datatype 'a fetch_result = Rejected string | Response nat "string + 'a"

text \<open>\<open>res.ok\<close>.\<close>

definition ok :: "nat \<Rightarrow> bool" where
  "ok status = (200 \<le> status \<and> status \<le> 299)"

text \<open>The calls of \<open>updateUser\<close> and \<open>removeUser\<close> fail, that is, reach the
  \<open>catch\<close> branch, when the promise is rejected or \<open>res.ok\<close> is false.\<close>

definition call_failed :: "'a fetch_result \<Rightarrow> bool" where
  "call_failed r = (case r of Rejected m \<Rightarrow> True | Response status body \<Rightarrow> \<not> ok status)"

text \<open>\<open>a === b\<close> on numbers: \<open>NaN\<close> is not equal to itself.\<close>

definition strict_eq :: "number \<Rightarrow> number \<Rightarrow> bool" where
  "strict_eq a b = (a = b \<and> a \<noteq> NaN)"

text \<open>A number in a condition: 0 and \<open>NaN\<close> count as false.\<close>

definition truthy :: "number \<Rightarrow> bool" where
  "truthy a = (a \<noteq> Num 0 \<and> a \<noteq> NaN)"

text \<open>\<open>e?.message || d\<close>.\<close>

definition or_default :: "string \<Rightarrow> string \<Rightarrow> string" where
  "or_default m d = (if m = [] then d else m)"

subsection \<open>\<open>fetchUsers\<close> (lines 183--207)\<close>

definition fetchUsers_begin :: "state \<Rightarrow> state" where
  "fetchUsers_begin st =
     st\<lparr> loading := True, error := None,
         users := (case cache st of Some c \<Rightarrow> c | None \<Rightarrow> users st) \<rparr>"

text \<open>The \<open>catch\<close> branch (lines 195--203) for an error with message \<open>m\<close>.\<close>

definition fetchUsers_failed :: "string \<Rightarrow> state \<Rightarrow> state" where
  "fetchUsers_failed m st =
     (case localStorage st of
        Some data \<Rightarrow> push Info ''Loaded offline cache'' None None (st\<lparr> users := data \<rparr>)
      | None \<Rightarrow> st\<lparr> error := Some (or_default m ''Failed to load'') \<rparr>)"

text \<open>The \<open>try\<close> block up to the parsed body (lines 189--191): either the message
  of the error that is thrown, or the data.\<close>

definition fetchUsers_try :: "User list fetch_result \<Rightarrow> string + User list" where
  "fetchUsers_try r =
     (case r of
        Rejected m \<Rightarrow> Inl m
      | Response status body \<Rightarrow>
          if \<not> ok status then Inl (''HTTP '' @ show_nat status) else body)"

text \<open>The rest of \<open>fetchUsers\<close>. \<open>localStorage.setItem\<close> is taken to succeed.\<close>

definition fetchUsers_resolve :: "User list fetch_result \<Rightarrow> state \<Rightarrow> state" where
  "fetchUsers_resolve r st =
     (let st1 =
        (case fetchUsers_try r of
           Inl m \<Rightarrow> fetchUsers_failed m st
         | Inr data \<Rightarrow> st\<lparr> cache := Some data, users := data, localStorage := Some data \<rparr>)
      in st1\<lparr> loading := False \<rparr>)"

definition fetchUsers :: "User list fetch_result \<Rightarrow> state \<Rightarrow> state" where
  "fetchUsers r st = fetchUsers_resolve r (fetchUsers_begin st)"

subsection \<open>\<open>createUser\<close> (lines 288--294)\<close>

text \<open>A failed call throws out of \<open>createUser\<close> and leaves the state as it is.\<close>

definition createUser_resolve :: "User fetch_result \<Rightarrow> state \<Rightarrow> state" where
  "createUser_resolve r st =
     (case r of
        Rejected m \<Rightarrow> st
      | Response status body \<Rightarrow>
          if \<not> ok status then st
          else (case body of
                  Inl m \<Rightarrow> st
                | Inr created \<Rightarrow>
                    push Success ''User created'' None None (st\<lparr> users := created # users st \<rparr>)))"

subsection \<open>\<open>updateUser\<close> (lines 296--309)\<close>

definition updateUser_begin :: "number \<Rightarrow> FormValues \<Rightarrow> state \<Rightarrow> User list \<times> state" where
  "updateUser_begin i values st =
     (let prev = users st
      in (prev,
          st\<lparr> users := map (\<lambda>u. if strict_eq (id' u) i
                                  then u\<lparr> name := name values, email := email values \<rparr>
                                  else u) (users st) \<rparr>))"

definition updateUser_resolve :: "User list \<Rightarrow> number \<Rightarrow> User fetch_result \<Rightarrow> state \<Rightarrow> state" where
  "updateUser_resolve prev i r st =
     (case r of
        Rejected m \<Rightarrow> push Error (or_default m ''Update failed'') None None (st\<lparr> users := prev \<rparr>)
      | Response status body \<Rightarrow>
          if \<not> ok status
          then push Error ''Update failed'' None None (st\<lparr> users := prev \<rparr>)
          else
            (let st1 =
               (case body of
                  Inl m \<Rightarrow> st
                | Inr data \<Rightarrow>
                    if truthy (id' data)
                    then st\<lparr> users := map (\<lambda>u. if strict_eq (id' u) i then data else u) (users st) \<rparr>
                    else st)
             in push Success ''Changes saved'' None None st1))"

subsection \<open>\<open>removeUser\<close> (lines 311--323)\<close>

definition removeUser_begin :: "number \<Rightarrow> state \<Rightarrow> User list \<times> state" where
  "removeUser_begin i st =
     (let prev = users st;
          removed = find (\<lambda>u. strict_eq (id' u) i) (users st);
          st1 = st\<lparr> users := filter (\<lambda>u. \<not> strict_eq (id' u) i) (users st) \<rparr>
      in (prev, push Info ''User deleted'' (Some ''Undo'') (Some (Undo removed)) st1))"

definition removeUser_resolve :: "User list \<Rightarrow> unit fetch_result \<Rightarrow> state \<Rightarrow> state" where
  "removeUser_resolve prev r st =
     (case r of
        Rejected m \<Rightarrow> push Error (or_default m ''Delete failed'') None None (st\<lparr> users := prev \<rparr>)
      | Response status body \<Rightarrow>
          if \<not> ok status
          then push Error ''Delete failed'' None None (st\<lparr> users := prev \<rparr>)
          else st)"

subsection \<open>\<open>removeSelected\<close> (lines 325--338)\<close>

text \<open>\<open>ids.includes(x)\<close> compares with SameValueZero, under which \<open>NaN\<close> equals
  itself: it is membership.\<close>

definition removeSelected_begin :: "state \<Rightarrow> (number list \<times> User list) \<times> state" where
  "removeSelected_begin st =
     (let ids = selected st;
          prev = users st
      in ((ids, prev),
          st\<lparr> confirmOpen := False,
              users := filter (\<lambda>u. \<not> List.member ids (id' u)) (users st),
              selected := [] \<rparr>))"

text \<open>\<open>Promise.all\<close> over the calls, one outcome per id: it is rejected exactly when
  one of the calls is rejected. The responses are not inspected (line 332).\<close>

definition is_rejected :: "'a fetch_result \<Rightarrow> bool" where
  "is_rejected r = (case r of Rejected m \<Rightarrow> True | Response status body \<Rightarrow> False)"

definition removeSelected_resolve ::
  "number list \<Rightarrow> User list \<Rightarrow> unit fetch_result list \<Rightarrow> state \<Rightarrow> state" where
  "removeSelected_resolve ids prev rs st =
     (if list_ex is_rejected rs
      then push Error ''Bulk delete failed'' None None (st\<lparr> users := prev \<rparr>)
      else push Success (''Deleted '' @ show_nat (length ids) @ '' user(s)'') None None st)"

subsection \<open>Live updates (lines 216--223)\<close>

definition applyExternalUpdate :: "User list \<Rightarrow> state \<Rightarrow> state" where
  "applyExternalUpdate payload st = st\<lparr> users := payload \<rparr>"

section \<open>Invariants of the page state\<close>


text \<open>The toast counter is ahead of every toast id in use, those of the mounted
  toasts and those of the pending timers.\<close>

definition counter_ahead :: "state \<Rightarrow> bool" where
  "counter_ahead st =
     (list_all (\<lambda>t. toast_id t < idRef st) (mounted st) \<and>
      list_all (\<lambda>(d, j). j < idRef st) (timers st))"

section \<open>Sample data\<close>

definition sample_users :: "User list" where
  "sample_users =
     [\<lparr>name = ''Ann'', email = ''ann@x.com'', id' = Num 1\<rparr>,
      \<lparr>name = ''Bob'', email = ''bob@x.com'', id' = Num 2\<rparr>,
      \<lparr>name = ''Cyd'', email = ''cyd@x.com'', id' = Num 3\<rparr>]"

definition sample_state :: state where
  "sample_state = (initial_state None)\<lparr> users := sample_users, loading := False \<rparr>"

definition sample_selection :: state where
  "sample_selection = sample_state\<lparr> selected := [Num 1, Num 2, Num 3] \<rparr>"

definition bob :: User where
  "bob = \<lparr>name = ''Bob'', email = ''bob@x.com'', id' = Num 2\<rparr>"

definition edit_ann :: FormValues where
  "edit_ann = \<lparr>name = ''Anna'', email = ''anna@x.com''\<rparr>"

definition edit_bob :: FormValues where
  "edit_bob = \<lparr>name = ''Bobby'', email = ''bobby@x.com''\<rparr>"


section \<open>Verified properties\<close>

subsection \<open>Auxiliary facts\<close>




lemma find_map_if:
  assumes "\<And>u. P u \<Longrightarrow> P (f u)"
  shows "find P (map (\<lambda>u. if P u then f u else u) xs) = map_option f (find P xs)"
  using assms by (induction xs) auto

lemma users_rollback_update:
  "call_failed r \<Longrightarrow> users (updateUser_resolve prev i r st') = prev"
  by (auto simp: call_failed_def updateUser_resolve_def push_def split: fetch_result.splits)

lemma users_rollback_remove:
  "call_failed r \<Longrightarrow> users (removeUser_resolve prev r st') = prev"
  by (auto simp: call_failed_def removeUser_resolve_def push_def split: fetch_result.splits)









subsection \<open>Encoding and decoding of CSV text\<close>

lemma trim_no_space_ends:
  assumes "s \<noteq> []" "\<not> is_space (hd s)" "\<not> is_space (last s)"
  shows "trim s = s"
proof -
  from assms have 1: "dropWhile is_space s = s"
    by (cases s) simp_all
  from assms have "rev s \<noteq> []" "\<not> is_space (hd (rev s))"
    by (simp_all add: hd_rev)
  then have 2: "dropWhile is_space (rev s) = rev s"
    by (cases "rev s") simp_all
  show ?thesis by (simp add: trim_def 1 2)
qed

lemma split_lines_LF: "split_lines cur (LF # rest) = cur # split_lines [] rest"
  by (cases rest) simp_all

lemma split_lines_line:
  assumes "LF \<notin> set l" "l \<noteq> [] \<Longrightarrow> last l \<noteq> CR"
  shows "split_lines cur (l @ LF # rest) = (cur @ l) # split_lines [] rest"
  using assms
proof (induction l arbitrary: cur)
  case Nil
  then show ?case by (simp add: split_lines_LF)
next
  case (Cons c l)
  show ?case
  proof (cases l)
    case Nil
    with Cons.prems show ?thesis by (simp add: split_lines_LF)
  next
    case (Cons d l')
    with Cons.prems have "c \<noteq> LF" "d \<noteq> LF" by auto
    then have "split_lines cur ((c # l) @ LF # rest) = split_lines (cur @ [c]) (l @ LF # rest)"
      using Cons by simp
    also have "\<dots> = ((cur @ [c]) @ l) # split_lines [] rest"
      using Cons.prems Cons by (intro Cons.IH) auto
    finally show ?thesis by simp
  qed
qed

lemma split_lines_last:
  assumes "LF \<notin> set l"
  shows "split_lines cur l = [cur @ l]"
  using assms
proof (induction l arbitrary: cur)
  case Nil
  then show ?case by simp
next
  case (Cons c l)
  show ?case
  proof (cases l)
    case Nil
    with Cons.prems show ?thesis by simp
  next
    case (Cons d l')
    with Cons.prems have "c \<noteq> LF" "d \<noteq> LF" by auto
    then have "split_lines cur (c # l) = split_lines (cur @ [c]) l"
      using Cons by simp
    also have "\<dots> = [(cur @ [c]) @ l]"
      using Cons.prems by (intro Cons.IH) auto
    finally show ?thesis by simp
  qed
qed

lemma split_lines_join:
  assumes "\<And>l. l \<in> set ls \<Longrightarrow> LF \<notin> set l \<and> (l \<noteq> [] \<longrightarrow> last l \<noteq> CR)" "ls \<noteq> []"
  shows "split_lines [] (join [LF] ls) = ls"
  using assms
proof (induction ls)
  case Nil
  then show ?case by simp
next
  case (Cons x ls)
  show ?case
  proof (cases ls)
    case Nil
    with Cons.prems show ?thesis by (simp add: split_lines_last)
  next
    case (Cons y ys)
    have "split_lines [] (x @ LF # join [LF] ls) = ([] @ x) # split_lines [] (join [LF] ls)"
      using Cons.prems(1) [of x] by (intro split_lines_line) auto
    moreover have "split_lines [] (join [LF] ls) = ls"
      using Cons.prems Cons by (intro Cons.IH) auto
    ultimately show ?thesis using Cons by simp
  qed
qed

lemma scan_cells_plain:
  assumes "DQ \<notin> set s" "CHR '','' \<notin> set s"
  shows "scan_cells cells cur False (s @ rest) = scan_cells cells (cur @ s) False rest"
  using assms by (induction s arbitrary: cur) auto

lemma scan_cells_quoted:
  assumes "DQ \<notin> set s"
  shows "scan_cells cells cur True (s @ rest) = scan_cells cells (cur @ s) True rest"
  using assms by (induction s arbitrary: cur) auto

lemma esc_plain: "DQ \<notin> set s \<Longrightarrow> esc s = DQ # s @ [DQ]"
proof -
  assume "DQ \<notin> set s"
  then have "concat (map (\<lambda>c. if c = DQ then [DQ, DQ] else [c]) s) = s"
    by (induction s) auto
  then show ?thesis by (simp add: esc_def)
qed

lemma scan_cells_row:
  assumes "DQ \<notin> set i" "CHR '','' \<notin> set i" "DQ \<notin> set n" "DQ \<notin> set e"
  shows "scan_cells [] [] False (join '','' [i, esc n, esc e]) = [i, n, e]"
proof -
  have "join '','' [i, esc n, esc e]
          = i @ CHR '','' # DQ # n @ DQ # CHR '','' # DQ # e @ [DQ]"
    using assms by (simp add: esc_plain)
  moreover have "scan_cells [] [] False (i @ CHR '','' # DQ # n @ DQ # CHR '','' # DQ # e @ [DQ])
          = scan_cells [] i False (CHR '','' # DQ # n @ DQ # CHR '','' # DQ # e @ [DQ])"
    using scan_cells_plain [OF assms(1,2), of "[]" "[]"] by simp
  moreover have "\<dots> = scan_cells [i] [] True (n @ DQ # CHR '','' # DQ # e @ [DQ])"
    by simp
  moreover have "\<dots> = scan_cells [i] n True (DQ # CHR '','' # DQ # e @ [DQ])"
    using scan_cells_quoted [OF assms(3), of "[i]" "[]"] by simp
  moreover have "\<dots> = scan_cells [i, n] [] True (e @ [DQ])"
    by simp
  moreover have "\<dots> = scan_cells [i, n] e True [DQ]"
    using scan_cells_quoted [OF assms(4), of "[i, n]" "[]"] by simp
  moreover have "\<dots> = [i, n, e]"
    by simp
  ultimately show ?thesis by simp
qed

lemma strip_quotes_plain: "DQ \<notin> set s \<Longrightarrow> strip_quotes s = s"
proof -
  assume a: "DQ \<notin> set s"
  then have "s \<noteq> [] \<Longrightarrow> hd s \<noteq> DQ" "s \<noteq> [] \<Longrightarrow> last s \<noteq> DQ"
    by (metis hd_in_set, metis last_in_set)
  then show ?thesis by (auto simp: strip_quotes_def)
qed

lemma unescape_plain: "DQ \<notin> set s \<Longrightarrow> unescape s = s"
  by (induction s rule: unescape.induct) auto

lemma get_plain:
  assumes "k < length cells" "DQ \<notin> set (cells ! k)"
  shows "get cells (int k) = Some (cells ! k)"
  using assms by (simp add: get_def strip_quotes_plain unescape_plain)

lemma digit_char_props:
  fixes d :: nat
  assumes "d < 10"
  shows "is_digit (char_of (48 + d))" "of_char (char_of (48 + d)) = 48 + d"
    "\<not> is_space (char_of (48 + d))" "char_of (48 + d) \<noteq> DQ" "char_of (48 + d) \<noteq> CHR '',''"
    "char_of (48 + d) \<noteq> CHR ''-''" "char_of (48 + d) \<noteq> CHR ''+''" "char_of (48 + d) \<noteq> LF"
    "char_of (48 + d) \<noteq> CR"
proof -
  from assms have "d \<in> {0,1,2,3,4,5,6,7,8,9}" by auto
  then show "is_digit (char_of (48 + d))" "of_char (char_of (48 + d)) = 48 + d"
    "\<not> is_space (char_of (48 + d))" "char_of (48 + d) \<noteq> DQ" "char_of (48 + d) \<noteq> CHR '',''"
    "char_of (48 + d) \<noteq> CHR ''-''" "char_of (48 + d) \<noteq> CHR ''+''" "char_of (48 + d) \<noteq> LF"
    "char_of (48 + d) \<noteq> CR"
    by (auto simp: is_digit_def is_space_def char_of_eq_iff)
qed


lemma show_nat_props:
  "show_nat n \<noteq> [] \<and> list_all is_digit (show_nat n) \<and> digits_value (show_nat n) = n \<and>
   (\<forall>c \<in> set (show_nat n). \<not> is_space c \<and> c \<noteq> DQ \<and> c \<noteq> CHR '','' \<and> c \<noteq> CHR ''-'' \<and>
       c \<noteq> CHR ''+'' \<and> c \<noteq> LF \<and> c \<noteq> CR)"
proof (induction n rule: show_nat.induct)
  case (1 n)
  show ?case
  proof (cases "n < 10")
    case True
    then have s: "show_nat n = [char_of (48 + n)]"
      by (subst show_nat.simps) simp
    from True digit_char_props [of n] show ?thesis
      unfolding s by (simp add: digits_value_def)
  next
    case False
    then have s: "show_nat n = show_nat (n div 10) @ [char_of (48 + n mod 10)]"
      by (subst show_nat.simps) simp
    have m: "n mod 10 < 10" by simp
    from False have ih: "show_nat (n div 10) \<noteq> [] \<and> list_all is_digit (show_nat (n div 10)) \<and>
       digits_value (show_nat (n div 10)) = n div 10 \<and>
       (\<forall>c \<in> set (show_nat (n div 10)). \<not> is_space c \<and> c \<noteq> DQ \<and> c \<noteq> CHR '','' \<and> c \<noteq> CHR ''-'' \<and>
           c \<noteq> CHR ''+'' \<and> c \<noteq> LF \<and> c \<noteq> CR)"
      by (rule "1.IH")
    have "digits_value (show_nat n) = 10 * digits_value (show_nat (n div 10)) + n mod 10"
      unfolding s using digit_char_props(2) [OF m] by (simp add: digits_value_def)
    with ih have v: "digits_value (show_nat n) = n" by simp
    from ih digit_char_props [OF m] v show ?thesis
      unfolding s by simp
  qed
qed

lemma trim_no_space:
  assumes "\<And>c. c \<in> set s \<Longrightarrow> \<not> is_space c"
  shows "trim s = s"
proof (cases s)
  case Nil
  then show ?thesis by (simp add: trim_def)
next
  case (Cons c cs)
  then have "s \<noteq> []" by simp
  moreover from this assms have "\<not> is_space (hd s)" "\<not> is_space (last s)"
    by simp_all
  ultimately show ?thesis by (rule trim_no_space_ends)
qed

lemma Number_str_String_number: "Number_str (String_number (Num n)) = Num n"
proof (cases "n < 0")
  case False
  let ?ds = "show_nat (nat n)"
  note p = show_nat_props [of "nat n"]
  from p have t: "trim ?ds = ?ds" by (intro trim_no_space) blast
  from p have "hd ?ds \<in> set ?ds" by simp
  with p have h: "hd ?ds \<noteq> CHR ''-''" "hd ?ds \<noteq> CHR ''+''" by blast+
  from False p h show ?thesis
    by (simp add: String_number_def Number_str_def t Let_def)
next
  case True
  let ?ds = "show_nat (nat (- n))"
  note p = show_nat_props [of "nat (- n)"]
  from p have "last ?ds \<in> set ?ds" by simp
  with p have "\<not> is_space (last (CHR ''-'' # ?ds))" by auto
  moreover have "\<not> is_space (hd (CHR ''-'' # ?ds))" by (simp add: is_space_def)
  ultimately have t: "trim (CHR ''-'' # ?ds) = CHR ''-'' # ?ds"
    by (intro trim_no_space_ends) simp_all
  from True p show ?thesis
    by (simp add: String_number_def Number_str_def t Let_def)
qed

lemma String_number_chars:
  "String_number (Num n) \<noteq> [] \<and> DQ \<notin> set (String_number (Num n)) \<and>
   CHR '','' \<notin> set (String_number (Num n)) \<and> LF \<notin> set (String_number (Num n)) "
  using show_nat_props [of "nat n"] show_nat_props [of "nat (- n)"]
  by (auto simp: String_number_def)

lemma parse_line_row:
  fixes r :: User
  assumes "id' r = Num n" "DQ \<notin> set (name r)" "DQ \<notin> set (email r)"
  shows "parse_line 0 1 2 (join '','' [String_number (id' r), esc (name r), esc (email r)]) = r"
proof -
  let ?i = "String_number (Num n)"
  let ?cells = "[?i, name r, email r]"
  note c = String_number_chars [of n]
  have s: "scan_cells [] [] False (join '','' [?i, esc (name r), esc (email r)]) = ?cells"
    using c assms(2,3) by (intro scan_cells_row) simp_all
  have g0: "get ?cells 0 = Some ?i"
    using get_plain [of 0 ?cells] c by simp
  have g1: "get ?cells 1 = Some (name r)"
    using get_plain [of 1 ?cells] assms(2) by simp
  have g2: "get ?cells 2 = Some (email r)"
    using get_plain [of 2 ?cells] assms(3) by simp
  have "parse_line 0 1 2 (join '','' [?i, esc (name r), esc (email r)])
          = \<lparr>name = name r, email = email r, id' = Num n\<rparr>"
    using c by (simp add: parse_line_def s g0 g1 g2 Number_str_String_number del: join.simps)
  with assms(1) show ?thesis by simp
qed

lemma join_nonempty_ends:
  assumes "\<And>l. l \<in> set (x # xs) \<Longrightarrow> l \<noteq> []"
  shows "join sep (x # xs) \<noteq> [] \<and> hd (join sep (x # xs)) = hd x \<and>
         last (join sep (x # xs)) = last (last (x # xs))"
  using assms
proof (induction xs arbitrary: x)
  case Nil
  then show ?case by simp
next
  case (Cons y ys)
  have "join sep (y # ys) \<noteq> [] \<and> hd (join sep (y # ys)) = hd y \<and>
         last (join sep (y # ys)) = last (last (y # ys))"
    using Cons.prems by (intro Cons.IH) simp
  moreover from Cons.prems have "x \<noteq> []" by simp
  ultimately show ?case by simp
qed

lemma row_chars:
  fixes r :: User
  assumes "id' r = Num n" "DQ \<notin> set (name r)" "DQ \<notin> set (email r)"
    "LF \<notin> set (name r)" "LF \<notin> set (email r)"
  shows "join '','' [String_number (id' r), esc (name r), esc (email r)] \<noteq> [] \<and>
         last (join '','' [String_number (id' r), esc (name r), esc (email r)]) = DQ \<and>
         LF \<notin> set (join '','' [String_number (id' r), esc (name r), esc (email r)])"
  using assms String_number_chars [of n] by (simp add: esc_plain)

lemma header_cells:
  "map (\<lambda>h. toLowerCase (trim h)) (split_comma [] ''id,name,email'') = [''id'', ''name'', ''email'']"
  by code_simp




subsection \<open>Sorting keeps the rows\<close>

lemma set_insert_by: "set (insert_by cmp x ys) = insert x (set ys)"
  by (induction ys) auto

lemma length_insert_by: "length (insert_by cmp x ys) = Suc (length ys)"
  by (induction ys) auto

lemma set_sort_by: "set (sort_by cmp xs) = set xs"
  by (induction xs) (simp_all add: sort_by_def set_insert_by)

lemma length_sort_by: "length (sort_by cmp xs) = length xs"
  by (induction xs) (simp_all add: sort_by_def length_insert_by)

subsection \<open>Toasts, timers and the toast counter\<close>

lemma expire_fields:
  "users (expire e d i s) = users s"
  "timers (expire e d i s) = timers s"
  "now (expire e d i s) = now s"
  "idRef (expire e d i s) = idRef s"
  "selected (expire e d i s) = selected s"
  by (simp_all add: expire_def)

lemma foldl_expire_fields:
  "users (foldl (\<lambda>s (d, i). expire e d i s) s due) = users s \<and>
   timers (foldl (\<lambda>s (d, i). expire e d i s) s due) = timers s \<and>
   now (foldl (\<lambda>s (d, i). expire e d i s) s due) = now s \<and>
   idRef (foldl (\<lambda>s (d, i). expire e d i s) s due) = idRef s \<and>
   selected (foldl (\<lambda>s (d, i). expire e d i s) s due) = selected s"
  by (induction due arbitrary: s) (auto simp: expire_fields)

lemma foldl_expire_items:
  "items (foldl (\<lambda>s (d, i). expire e d i s) s due)
     = filter (\<lambda>x. toast_id x \<notin> snd ` set due) (items s)"
proof (induction due arbitrary: s)
  case Nil
  then show ?case by simp
next
  case (Cons p due)
  obtain d i where p: "p = (d, i)" by (cases p)
  have "items (foldl (\<lambda>s (d, i). expire e d i s) s (p # due))
          = items (foldl (\<lambda>s (d, i). expire e d i s) (expire e d i s) due)"
    by (simp add: p)
  also have "\<dots> = filter (\<lambda>x. toast_id x \<notin> snd ` set due) (items (expire e d i s))"
    by (rule Cons.IH)
  also have "\<dots> = filter (\<lambda>x. toast_id x \<notin> snd ` set (p # due)) (items s)"
    by (auto simp: expire_def p intro: filter_cong)
  finally show ?case .
qed

lemma foldl_expire_exiting_mono:
  "(u, x) \<in> set (exiting s) \<Longrightarrow> (u, x) \<in> set (exiting (foldl (\<lambda>s (d, i). expire e d i s) s due))"
proof (induction due arbitrary: s)
  case Nil
  then show ?case by simp
next
  case (Cons p due)
  obtain d i where p: "p = (d, i)" by (cases p)
  from Cons.prems have "(u, x) \<in> set (exiting (expire e d i s))"
    by (simp add: expire_def)
  then have "(u, x) \<in> set (exiting (foldl (\<lambda>s (d, i). expire e d i s) (expire e d i s) due))"
    by (rule Cons.IH)
  then show ?case by (simp add: p)
qed

lemma foldl_expire_exiting_from:
  assumes "(u, x) \<in> set (exiting (foldl (\<lambda>s (d, i). expire e d i s) s due))"
  shows "(u, x) \<in> set (exiting s) \<or>
         (x \<in> set (items s) \<and> (\<exists>d. (d, toast_id x) \<in> set due \<and> u = d + e))"
  using assms
proof (induction due arbitrary: s)
  case Nil
  then show ?case by simp
next
  case (Cons p due)
  obtain d i where p: "p = (d, i)" by (cases p)
  from Cons.prems have "(u, x) \<in> set (exiting (foldl (\<lambda>s (d, i). expire e d i s) (expire e d i s) due))"
    by (simp add: p)
  then have "(u, x) \<in> set (exiting (expire e d i s)) \<or>
         (x \<in> set (items (expire e d i s)) \<and> (\<exists>d'. (d', toast_id x) \<in> set due \<and> u = d' + e))"
    by (rule Cons.IH)
  then show ?case
    by (auto simp: expire_def p)
qed

lemma foldl_expire_exiting_into:
  assumes "x \<in> set (items s)" "(d, toast_id x) \<in> set due"
    and "\<And>d'. (d', toast_id x) \<in> set due \<Longrightarrow> d' = d"
  shows "(d + e, x) \<in> set (exiting (foldl (\<lambda>s (d, i). expire e d i s) s due))"
  using assms
proof (induction due arbitrary: s)
  case Nil
  then show ?case by simp
next
  case (Cons p due)
  obtain d1 i1 where p: "p = (d1, i1)" by (cases p)
  show ?case
  proof (cases "i1 = toast_id x")
    case True
    with Cons.prems(3) [of d1] p have "d1 = d" by simp
    with True Cons.prems(1) have "(d + e, x) \<in> set (exiting (expire e d1 i1 s))"
      by (simp add: expire_def)
    then have "(d + e, x) \<in> set (exiting (foldl (\<lambda>s (d, i). expire e d i s) (expire e d1 i1 s) due))"
      by (rule foldl_expire_exiting_mono)
    then show ?thesis by (simp add: p)
  next
    case False
    with Cons.prems(1) have 1: "x \<in> set (items (expire e d1 i1 s))"
      by (simp add: expire_def)
    from False Cons.prems(2) p have 2: "(d, toast_id x) \<in> set due" by auto
    have "(d + e, x) \<in> set (exiting (foldl (\<lambda>s (d, i). expire e d i s) (expire e d1 i1 s) due))"
      using 1 2 Cons.prems(3) by (intro Cons.IH) auto
    then show ?thesis by (simp add: p)
  qed
qed

lemma advance_fields:
  "users (advance e dt st) = users st"
  "selected (advance e dt st) = selected st"
  "now (advance e dt st) = now st + dt"
  "idRef (advance e dt st) = idRef st"
  "timers (advance e dt st) = filter (\<lambda>(d, i). \<not> d \<le> now st + dt) (timers st)"
  "items (advance e dt st)
     = filter (\<lambda>x. toast_id x \<notin> snd ` set (filter (\<lambda>(d, i). d \<le> now st + dt) (timers st))) (items st)"
  unfolding advance_def Let_def
  by (simp_all add: foldl_expire_fields foldl_expire_items)

lemma advance_exiting:
  "set (exiting (advance e dt st))
     = {(u, x). now st + dt < u \<and>
          (u, x) \<in> set (exiting (foldl (\<lambda>s (d, i). expire e d i s)
                         (st\<lparr> now := now st + dt,
                              timers := filter (\<lambda>(d, i). \<not> d \<le> now st + dt) (timers st) \<rparr>)
                         (filter (\<lambda>(d, i). d \<le> now st + dt) (timers st))))}"
  unfolding advance_def Let_def by auto

lemma advance_keeps_mounted:
  assumes t: "t \<in> set (items st)"
    and only: "\<forall>d'. (d', toast_id t) \<in> set (timers st) \<longrightarrow> d' = d"
    and early: "now st + dt < d + e"
  shows "t \<in> set (mounted (advance e dt st))"
proof (cases "(d, toast_id t) \<in> set (timers st) \<and> d \<le> now st + dt")
  case True
  let ?s1 = "st\<lparr> now := now st + dt,
                 timers := filter (\<lambda>(d, i). \<not> d \<le> now st + dt) (timers st) \<rparr>"
  let ?due = "filter (\<lambda>(d, i). d \<le> now st + dt) (timers st)"
  have a: "t \<in> set (items ?s1)" using t by simp
  have b: "(d, toast_id t) \<in> set ?due" using True by simp
  have c: "d' = d" if "(d', toast_id t) \<in> set ?due" for d'
  proof -
    from that have "(d', toast_id t) \<in> set (timers st)" by simp
    with only show ?thesis by blast
  qed
  have "(d + e, t) \<in> set (exiting (foldl (\<lambda>s (d, i). expire e d i s) ?s1 ?due))"
    using a b c by (rule foldl_expire_exiting_into)
  with early have "(d + e, t) \<in> set (exiting (advance e dt st))"
    unfolding advance_exiting by blast
  then have "t \<in> snd ` set (exiting (advance e dt st))" by force
  then show ?thesis by (simp add: mounted_def)
next
  case False
  have "toast_id t \<notin> snd ` set (filter (\<lambda>(d, i). d \<le> now st + dt) (timers st))"
  proof
    assume "toast_id t \<in> snd ` set (filter (\<lambda>(d, i). d \<le> now st + dt) (timers st))"
    then obtain d' where d': "(d', toast_id t) \<in> set (timers st)" "d' \<le> now st + dt"
      by auto
    with only have "d' = d" by blast
    with d' False show False by blast
  qed
  with t have "t \<in> set (items (advance e dt st))"
    unfolding advance_fields by simp
  then show ?thesis by (simp add: mounted_def)
qed

lemma exiting_advance_from:
  assumes "(u, x) \<in> set (exiting (advance e dt st))"
  shows "now st + dt < u \<and>
         ((u, x) \<in> set (exiting st) \<or>
          (x \<in> set (items st) \<and> (\<exists>d. (d, toast_id x) \<in> set (timers st) \<and> u = d + e)))"
proof -
  let ?s1 = "st\<lparr> now := now st + dt,
                 timers := filter (\<lambda>(d, i). \<not> d \<le> now st + dt) (timers st) \<rparr>"
  let ?due = "filter (\<lambda>(d, i). d \<le> now st + dt) (timers st)"
  from assms have u: "now st + dt < u"
    and m: "(u, x) \<in> set (exiting (foldl (\<lambda>s (d, i). expire e d i s) ?s1 ?due))"
    unfolding advance_exiting by blast+
  from foldl_expire_exiting_from [OF m]
  have "(u, x) \<in> set (exiting ?s1) \<or>
         (x \<in> set (items ?s1) \<and> (\<exists>d. (d, toast_id x) \<in> set ?due \<and> u = d + e))" .
  then have "(u, x) \<in> set (exiting st) \<or>
          (x \<in> set (items st) \<and> (\<exists>d. (d, toast_id x) \<in> set (timers st) \<and> u = d + e))"
    by auto
  with u show ?thesis by blast
qed

lemma advance_mounted_subset:
  assumes "x \<in> set (mounted (advance e dt st))"
  shows "x \<in> set (mounted st)"
proof -
  from assms have "x \<in> set (items (advance e dt st)) \<or> (\<exists>u. (u, x) \<in> set (exiting (advance e dt st)))"
    unfolding mounted_def by force
  then show ?thesis
  proof
    assume "x \<in> set (items (advance e dt st))"
    then have "x \<in> set (items st)" unfolding advance_fields by simp
    then show ?thesis by (simp add: mounted_def)
  next
    assume "\<exists>u. (u, x) \<in> set (exiting (advance e dt st))"
    then obtain u where "(u, x) \<in> set (exiting (advance e dt st))" ..
    from exiting_advance_from [OF this]
    have "(u, x) \<in> set (exiting st) \<or> x \<in> set (items st)" by blast
    then show ?thesis unfolding mounted_def by force
  qed
qed

lemma advance_unmounts:
  assumes ex: "\<forall>(u, x) \<in> set (exiting st). toast_id x \<noteq> j"
    and tm: "(d, j) \<in> set (timers st)"
    and only: "\<forall>d'. (d', j) \<in> set (timers st) \<longrightarrow> d' = d"
    and late: "d + e \<le> now st + dt"
  shows "\<forall>x \<in> set (mounted (advance e dt st)). toast_id x \<noteq> j"
proof
  fix x assume "x \<in> set (mounted (advance e dt st))"
  then have "x \<in> set (items (advance e dt st)) \<or> (\<exists>u. (u, x) \<in> set (exiting (advance e dt st)))"
    unfolding mounted_def by force
  then show "toast_id x \<noteq> j"
  proof
    assume 1: "x \<in> set (items (advance e dt st))"
    from tm late have "(d, j) \<in> set (filter (\<lambda>(d, i). d \<le> now st + dt) (timers st))" by simp
    then have "j \<in> snd ` set (filter (\<lambda>(d, i). d \<le> now st + dt) (timers st))" by force
    with 1 show ?thesis unfolding advance_fields by auto
  next
    assume "\<exists>u. (u, x) \<in> set (exiting (advance e dt st))"
    then obtain u where "(u, x) \<in> set (exiting (advance e dt st))" ..
    from exiting_advance_from [OF this]
    have u: "now st + dt < u"
      and c: "(u, x) \<in> set (exiting st) \<or> (\<exists>d'. (d', toast_id x) \<in> set (timers st) \<and> u = d' + e)"
      by blast+
    from c show ?thesis
    proof
      assume "(u, x) \<in> set (exiting st)"
      with ex show ?thesis by blast
    next
      assume "\<exists>d'. (d', toast_id x) \<in> set (timers st) \<and> u = d' + e"
      then obtain d' where d': "(d', toast_id x) \<in> set (timers st)" "u = d' + e" by blast
      show ?thesis
      proof
        assume "toast_id x = j"
        with d' only have "d' = d" by blast
        with d' u late show False by simp
      qed
    qed
  qed
qed

lemma find_the_one:
  assumes "t \<in> set xs" "P t" "\<forall>x \<in> set xs. P x \<longrightarrow> x = t"
  shows "find P xs = Some t"
  using assms
proof (induction xs)
  case Nil
  then show ?case by simp
next
  case (Cons a xs)
  show ?case
  proof (cases "P a")
    case True
    with Cons.prems(3) have "a = t" by simp
    with True show ?thesis by simp
  next
    case False
    with Cons.prems(1,2) have "t \<in> set xs" by auto
    moreover from Cons.prems(3) have "\<forall>x \<in> set xs. P x \<longrightarrow> x = t" by simp
    ultimately have "find P xs = Some t" using Cons.prems(2) by (intro Cons.IH)
    with False show ?thesis by simp
  qed
qed

lemma find_none: "\<forall>x \<in> set xs. \<not> P x \<Longrightarrow> find P xs = None"
  by (induction xs) simp_all

lemma toast_after_advance:
  assumes t: "t \<in> set (items st)"
    and one: "\<forall>x \<in> set (items st). toast_id x = toast_id t \<longrightarrow> x = t"
    and ex: "\<forall>(u, x) \<in> set (exiting st). toast_id x \<noteq> toast_id t"
    and tm: "(d, toast_id t) \<in> set (timers st)"
    and only: "\<forall>d'. (d', toast_id t) \<in> set (timers st) \<longrightarrow> d' = d"
  shows "now st + dt < d + e \<Longrightarrow>
           find (\<lambda>x. toast_id x = toast_id t) (mounted (advance e dt st)) = Some t"
    and "d + e \<le> now st + dt \<Longrightarrow>
           find (\<lambda>x. toast_id x = toast_id t) (mounted (advance e dt st)) = None"
    and "d \<le> now st + dt \<Longrightarrow> \<not> list_ex (\<lambda>x. toast_id x = toast_id t) (items (advance e dt st))"
    and "d \<le> now st + dt \<Longrightarrow> \<not> list_ex (\<lambda>(d', j). j = toast_id t) (timers (advance e dt st))"
proof -
  have m: "\<forall>x \<in> set (mounted st). toast_id x = toast_id t \<longrightarrow> x = t"
  proof (intro ballI impI)
    fix x assume x: "x \<in> set (mounted st)" and eq: "toast_id x = toast_id t"
    from x have "x \<in> set (items st) \<or> (\<exists>u. (u, x) \<in> set (exiting st))"
      unfolding mounted_def by force
    with ex eq have "x \<in> set (items st)" by blast
    with one eq show "x = t" by blast
  qed
  show "find (\<lambda>x. toast_id x = toast_id t) (mounted (advance e dt st)) = Some t"
    if "now st + dt < d + e"
  proof (rule find_the_one)
    show "t \<in> set (mounted (advance e dt st))"
      using t only that by (rule advance_keeps_mounted)
    show "toast_id t = toast_id t" ..
    show "\<forall>x \<in> set (mounted (advance e dt st)). toast_id x = toast_id t \<longrightarrow> x = t"
      using m advance_mounted_subset by blast
  qed
  show "find (\<lambda>x. toast_id x = toast_id t) (mounted (advance e dt st)) = None"
    if "d + e \<le> now st + dt"
  proof (rule find_none)
    from advance_unmounts [OF ex tm only that]
    show "\<forall>x \<in> set (mounted (advance e dt st)). \<not> toast_id x = toast_id t" .
  qed
  show "\<not> list_ex (\<lambda>x. toast_id x = toast_id t) (items (advance e dt st))" if "d \<le> now st + dt"
  proof -
    from tm that have "(d, toast_id t) \<in> set (filter (\<lambda>(d, i). d \<le> now st + dt) (timers st))"
      by simp
    then have mem: "toast_id t \<in> snd ` set (filter (\<lambda>(d, i). d \<le> now st + dt) (timers st))"
      by force
    have "toast_id x \<noteq> toast_id t" if "x \<in> set (items (advance e dt st))" for x
    proof -
      from that have "toast_id x \<notin> snd ` set (filter (\<lambda>(d, i). d \<le> now st + dt) (timers st))"
        unfolding advance_fields by simp
      with mem show ?thesis by metis
    qed
    then show ?thesis unfolding list_ex_iff by blast
  qed
  show "\<not> list_ex (\<lambda>(d', j). j = toast_id t) (timers (advance e dt st))" if "d \<le> now st + dt"
  proof -
    have "j \<noteq> toast_id t" if "(d', j) \<in> set (timers (advance e dt st))" for d' j
    proof
      assume j: "j = toast_id t"
      from that have "(d', j) \<in> set (timers st)" and late: "\<not> d' \<le> now st + dt"
        unfolding advance_fields by simp_all
      with j only have "d' = d" by blast
      with late \<open>d \<le> now st + dt\<close> show False by simp
    qed
    then show ?thesis unfolding list_ex_iff by blast
  qed
qed

lemma removeUser_begin_fields:
  "fst (removeUser_begin i st) = users st"
  "users (snd (removeUser_begin i st)) = filter (\<lambda>u. \<not> strict_eq (id' u) i) (users st)"
  "items (snd (removeUser_begin i st))
     = items st @ [\<lparr> toast_id = idRef st, toast_type = Info, msg = ''User deleted'',
                      actionLabel = Some ''Undo'',
                      action = Some (Undo (find (\<lambda>u. strict_eq (id' u) i) (users st))) \<rparr>]"
  "timers (snd (removeUser_begin i st)) = timers st @ [(now st + 4000, idRef st)]"
  "now (snd (removeUser_begin i st)) = now st"
  "idRef (snd (removeUser_begin i st)) = idRef st + 1"
  "exiting (snd (removeUser_begin i st)) = exiting st"
  by (simp_all add: removeUser_begin_def push_def Let_def)


lemma counter_ahead_old:
  assumes "counter_ahead st"
  shows "\<forall>x \<in> set (items st). toast_id x < idRef st"
    and "\<forall>(u, x) \<in> set (exiting st). toast_id x < idRef st"
    and "\<forall>(d, j) \<in> set (timers st). j < idRef st"
proof -
  from assms have m: "\<forall>x \<in> set (mounted st). toast_id x < idRef st"
    and tm: "\<forall>(d, j) \<in> set (timers st). j < idRef st"
    by (simp_all add: counter_ahead_def list_all_iff)
  from m show "\<forall>x \<in> set (items st). toast_id x < idRef st"
    by (simp add: mounted_def)
  show "\<forall>(u, x) \<in> set (exiting st). toast_id x < idRef st"
  proof (clarify)
    fix u x assume "(u, x) \<in> set (exiting st)"
    then have "x \<in> set (mounted st)" unfolding mounted_def by force
    with m show "toast_id x < idRef st" by blast
  qed
  from tm show "\<forall>(d, j) \<in> set (timers st). j < idRef st" .
qed

lemma undo_toast_after_begin:
  assumes wf: "counter_ahead st"
  shows "find (\<lambda>x. toast_id x = idRef st) (mounted (advance e dt (snd (removeUser_begin i st))))
           = (if now st + dt < now st + 4000 + e
              then Some \<lparr> toast_id = idRef st, toast_type = Info, msg = ''User deleted'',
                          actionLabel = Some ''Undo'',
                          action = Some (Undo (find (\<lambda>u. strict_eq (id' u) i) (users st))) \<rparr>
              else None)"
    and "4000 \<le> dt \<Longrightarrow>
           \<not> list_ex (\<lambda>x. toast_id x = idRef st) (items (advance e dt (snd (removeUser_begin i st))))"
    and "4000 \<le> dt \<Longrightarrow>
           \<not> list_ex (\<lambda>(d', j). j = idRef st) (timers (advance e dt (snd (removeUser_begin i st))))"
proof -
  let ?s = "snd (removeUser_begin i st)"
  let ?t = "\<lparr> toast_id = idRef st, toast_type = Info, msg = ''User deleted'',
               actionLabel = Some ''Undo'',
               action = Some (Undo (find (\<lambda>u. strict_eq (id' u) i) (users st))) \<rparr>"
  note old = counter_ahead_old [OF wf]
  have id: "toast_id ?t = idRef st" by simp
  have t: "?t \<in> set (items ?s)" by (simp add: removeUser_begin_fields)
  have one: "\<forall>x \<in> set (items ?s). toast_id x = toast_id ?t \<longrightarrow> x = ?t"
    using old(1) by (auto simp: removeUser_begin_fields)
  have ex: "\<forall>(u, x) \<in> set (exiting ?s). toast_id x \<noteq> toast_id ?t"
    using old(2) by (auto simp: removeUser_begin_fields)
  have tm: "(now st + 4000, toast_id ?t) \<in> set (timers ?s)"
    by (simp add: removeUser_begin_fields)
  have only: "\<forall>d'. (d', toast_id ?t) \<in> set (timers ?s) \<longrightarrow> d' = now st + 4000"
    using old(3) by (auto simp: removeUser_begin_fields)
  have n: "now ?s = now st" by (simp add: removeUser_begin_fields)
  note ta = toast_after_advance [OF t one ex tm only, where dt = dt and e = e, unfolded n id]
  show "find (\<lambda>x. toast_id x = idRef st) (mounted (advance e dt ?s))
           = (if now st + dt < now st + 4000 + e then Some ?t else None)"
  proof (cases "now st + dt < now st + 4000 + e")
    case True
    from ta(1) [OF True] True show ?thesis by simp
  next
    case False
    then have "now st + 4000 + e \<le> now st + dt" by simp
    from ta(2) [OF this] False show ?thesis by simp
  qed
  show "\<not> list_ex (\<lambda>x. toast_id x = idRef st) (items (advance e dt ?s))" if "4000 \<le> dt"
    using ta(3) that by simp
  show "\<not> list_ex (\<lambda>(d', j). j = idRef st) (timers (advance e dt ?s))" if "4000 \<le> dt"
    using ta(4) that by simp
qed


lemma mounted_users [simp]: "mounted (s\<lparr> users := us \<rparr>) = mounted s"
  by (simp add: mounted_def)

lemma click_action_shown:
  assumes "find (\<lambda>t. toast_id t = j) (mounted s) = Some t"
    and "action t = Some (Undo (Some r))" and "actionLabel t = Some l" and "l \<noteq> []"
  shows "click_action j s = Some (s\<lparr> users := r # users s \<rparr>)"
  using assms by (simp add: click_action_def run_action_def)

lemma click_action_twice:
  assumes "find (\<lambda>t. toast_id t = j) (mounted s) = Some t"
    and "action t = Some (Undo (Some r))" and "actionLabel t = Some l" and "l \<noteq> []"
  shows "map_option users (click_action j s) = Some (r # users s)"
    and "map_option users (Option.bind (click_action j s) (click_action j)) = Some (r # r # users s)"
proof -
  have c1: "click_action j s = Some (s\<lparr> users := r # users s \<rparr>)"
    using assms by (rule click_action_shown)
  from assms(1) have "find (\<lambda>t. toast_id t = j) (mounted (s\<lparr> users := r # users s \<rparr>)) = Some t"
    by simp
  then have c2: "click_action j (s\<lparr> users := r # users s \<rparr>)
                   = Some (s\<lparr> users := r # users s \<rparr>\<lparr> users := r # users (s\<lparr> users := r # users s \<rparr>) \<rparr>)"
    using assms(2-4) by (rule click_action_shown)
  from c1 show "map_option users (click_action j s) = Some (r # users s)" by simp
  from c1 c2 show "map_option users (Option.bind (click_action j s) (click_action j))
                     = Some (r # r # users s)" by simp
qed

lemma click_action_none:
  "find (\<lambda>t. toast_id t = j) (mounted s) = None \<Longrightarrow> click_action j s = None"
  by (simp add: click_action_def)

lemma counter_ahead_push:
  assumes "counter_ahead st"
  shows "counter_ahead (push ty m l a st)"
proof -
  from assms have old: "\<forall>x \<in> set (mounted st). toast_id x < idRef st"
    and tm: "\<forall>(d, j) \<in> set (timers st). j < idRef st"
    by (simp_all add: counter_ahead_def list_all_iff)
  have "toast_id x < idRef (push ty m l a st)" if "x \<in> set (mounted (push ty m l a st))" for x
  proof -
    from that have "x \<in> set (mounted st) \<or> toast_id x = idRef st"
      by (auto simp: mounted_def push_def)
    with old have "toast_id x < Suc (idRef st)" by (auto intro: less_SucI)
    then show ?thesis by (simp add: push_def)
  qed
  moreover have "j < idRef (push ty m l a st)" if "(d, j) \<in> set (timers (push ty m l a st))" for d j
  proof -
    from that have "(d, j) \<in> set (timers st) \<or> j = idRef st"
      by (auto simp: push_def)
    with tm have "j < Suc (idRef st)" by (auto intro: less_SucI)
    then show ?thesis by (simp add: push_def)
  qed
  ultimately show ?thesis by (auto simp: counter_ahead_def list_all_iff)
qed

lemma counter_ahead_frame [simp]:
  "counter_ahead (st\<lparr> users := us \<rparr>) = counter_ahead st"
  "counter_ahead (st\<lparr> loading := b \<rparr>) = counter_ahead st"
  "counter_ahead (st\<lparr> error := er \<rparr>) = counter_ahead st"
  "counter_ahead (st\<lparr> cache := c \<rparr>) = counter_ahead st"
  "counter_ahead (st\<lparr> localStorage := c \<rparr>) = counter_ahead st"
  "counter_ahead (st\<lparr> selected := sel \<rparr>) = counter_ahead st"
  "counter_ahead (st\<lparr> confirmOpen := b \<rparr>) = counter_ahead st"
  by (simp_all add: counter_ahead_def mounted_def)

lemma counter_ahead_advance:
  assumes "counter_ahead st"
  shows "counter_ahead (advance e dt st)"
proof -
  from assms have m: "\<forall>x \<in> set (mounted st). toast_id x < idRef st"
    and tm: "\<forall>(d, j) \<in> set (timers st). j < idRef st"
    by (simp_all add: counter_ahead_def list_all_iff)
  from m have "\<forall>x \<in> set (mounted (advance e dt st)). toast_id x < idRef (advance e dt st)"
    using advance_mounted_subset unfolding advance_fields by blast
  moreover from tm have "\<forall>(d, j) \<in> set (timers (advance e dt st)). j < idRef (advance e dt st)"
    unfolding advance_fields by auto
  ultimately show ?thesis by (simp add: counter_ahead_def list_all_iff)
qed

lemma counter_ahead_invariant:
  "counter_ahead (initial_state ls)"
  "counter_ahead st \<Longrightarrow> counter_ahead (fetchUsers r0 st)"
  "counter_ahead st \<Longrightarrow> counter_ahead (createUser_resolve r1 st)"
  "counter_ahead st \<Longrightarrow> counter_ahead (snd (updateUser_begin i values st))"
  "counter_ahead st \<Longrightarrow> counter_ahead (updateUser_resolve prev i r1 st)"
  "counter_ahead st \<Longrightarrow> counter_ahead (snd (removeUser_begin i st))"
  "counter_ahead st \<Longrightarrow> counter_ahead (removeUser_resolve prev r2 st)"
  "counter_ahead st \<Longrightarrow> counter_ahead (snd (removeSelected_begin st))"
  "counter_ahead st \<Longrightarrow> counter_ahead (removeSelected_resolve ids prev rs st)"
  "counter_ahead st \<Longrightarrow> counter_ahead (applyExternalUpdate payload st)"
  "counter_ahead st \<Longrightarrow> click_action j st = Some st' \<Longrightarrow> counter_ahead st'"
proof -
  show "counter_ahead (initial_state ls)"
    by (simp add: counter_ahead_def mounted_def initial_state_def)
  show "counter_ahead st \<Longrightarrow> counter_ahead (fetchUsers r0 st)"
    by (auto simp: fetchUsers_def fetchUsers_resolve_def fetchUsers_begin_def fetchUsers_failed_def
          intro: counter_ahead_push split: sum.splits option.splits)
  show "counter_ahead st \<Longrightarrow> counter_ahead (createUser_resolve r1 st)"
    by (auto simp: createUser_resolve_def intro: counter_ahead_push split: fetch_result.splits sum.splits)
  show "counter_ahead st \<Longrightarrow> counter_ahead (snd (updateUser_begin i values st))"
    by (simp add: updateUser_begin_def Let_def)
  show "counter_ahead st \<Longrightarrow> counter_ahead (updateUser_resolve prev i r1 st)"
    by (auto simp: updateUser_resolve_def Let_def intro: counter_ahead_push
          split: fetch_result.splits sum.splits)
  show "counter_ahead st \<Longrightarrow> counter_ahead (snd (removeUser_begin i st))"
    by (simp add: removeUser_begin_def Let_def counter_ahead_push)
  show "counter_ahead st \<Longrightarrow> counter_ahead (removeUser_resolve prev r2 st)"
    by (auto simp: removeUser_resolve_def intro: counter_ahead_push split: fetch_result.splits)
  show "counter_ahead st \<Longrightarrow> counter_ahead (snd (removeSelected_begin st))"
    by (simp add: removeSelected_begin_def Let_def)
  show "counter_ahead st \<Longrightarrow> counter_ahead (removeSelected_resolve ids prev rs st)"
    by (auto simp: removeSelected_resolve_def intro: counter_ahead_push)
  show "counter_ahead st \<Longrightarrow> counter_ahead (applyExternalUpdate payload st)"
    by (simp add: applyExternalUpdate_def)
  show "counter_ahead st \<Longrightarrow> click_action j st = Some st' \<Longrightarrow> counter_ahead st'"
    by (auto simp: click_action_def run_action_def split: option.splits toast_action.splits if_splits)
qed

subsection \<open>Ids under the operations\<close>










subsection \<open>CSV round trip\<close>

text \<open>
  C1. The claim is that decoding the encoded text gives the records back, also when a
  name or an email contains double quotes. \<open>toCSV\<close> doubles each quote and
  \<open>parseCSV\<close> means to undo that with \<open>replaceAll('""', '"')\<close>, but its scanner
  has already dropped every quote character from the cells: the record with the
  name \<open>a"b\<close> comes back with the name \<open>ab\<close>.
\<close>

theorem parseCSV_toCSV_drops_quote:
  "parseCSV (toCSV [\<lparr>name = ''a'' @ [DQ] @ ''b'', email = ''x@y.com'', id' = Num 1\<rparr>])
     = [\<lparr>name = ''ab'', email = ''x@y.com'', id' = Num 1\<rparr>]"
  by code_simp

text \<open>
  X1. The round trip does hold for the records that the scanner can read back: when
  every id is an integer and no name or email contains a double quote or a line
  feed, \<open>parseCSV (toCSV R)\<close> is \<open>R\<close>. Commas, spaces and carriage returns in
  the fields are kept.
\<close>

theorem parseCSV_toCSV_without_quotes:
  assumes R: "\<forall>r \<in> set R.
             (\<exists>n. id' r = Num n) \<and> DQ \<notin> set (name r) \<and> DQ \<notin> set (email r) \<and>
             LF \<notin> set (name r) \<and> LF \<notin> set (email r)"
  shows "parseCSV (toCSV R) = R"
proof -
  from R have assms: "\<And>r. r \<in> set R \<Longrightarrow>
             (\<exists>n. id' r = Num n) \<and> DQ \<notin> set (name r) \<and> DQ \<notin> set (email r) \<and>
             LF \<notin> set (name r) \<and> LF \<notin> set (email r)"
    by blast
  define row where "row = (\<lambda>r :: User. join '','' [String_number (id' r), esc (name r), esc (email r)])"
  let ?ls = "''id,name,email'' # map row R"
  have rows: "row r \<noteq> [] \<and> last (row r) = DQ \<and> LF \<notin> set (row r)" if "r \<in> set R" for r
    unfolding row_def using assms [OF that] row_chars [of r] by blast
  have t: "toCSV R = join [LF] ?ls"
    by (simp add: toCSV_def row_def del: join.simps)
  have ne: "l \<noteq> []" if "l \<in> set ?ls" for l
    using that rows by fastforce
  have ends: "join [LF] ?ls \<noteq> [] \<and> hd (join [LF] ?ls) = CHR ''i'' \<and>
              last (join [LF] ?ls) = last (last ?ls)"
    using join_nonempty_ends [of "''id,name,email''" "map row R" "[LF]"] ne by simp
  have "last (last ?ls) = CHR ''l'' \<or> last (last ?ls) = DQ"
  proof (cases "R = []")
    case True
    then show ?thesis by simp
  next
    case False
    then have "last ?ls = row (last R)" by (simp add: last_map)
    with False rows [of "last R"] show ?thesis by simp
  qed
  then have "\<not> is_space (last (last ?ls))"
    by (auto simp: is_space_def)
  with ends have tr: "trim (join [LF] ?ls) = join [LF] ?ls"
    by (intro trim_no_space_ends) (simp_all add: is_space_def)
  have "split_lines [] (join [LF] ?ls) = ?ls"
  proof (rule split_lines_join)
    fix l assume "l \<in> set ?ls"
    then show "LF \<notin> set l \<and> (l \<noteq> [] \<longrightarrow> last l \<noteq> CR)"
      using rows by fastforce
  qed simp
  with t tr have lines: "csv_lines (toCSV R) = ?ls"
    by (simp add: csv_lines_def)
  then have hdr: "csv_header (toCSV R) = [''id'', ''name'', ''email'']"
    by (simp only: csv_header_def list.case header_cells)
  have "parseCSV (toCSV R) = map (parse_line 0 1 2) (map row R)"
    by (simp add: parseCSV_def hdr lines)
  also have "\<dots> = map (\<lambda>r. parse_line 0 1 2 (row r)) R"
    by simp
  also have "\<dots> = R"
  proof (rule map_idI)
    fix r assume "r \<in> set R"
    from assms [OF this] obtain n where "id' r = Num n"
      and "DQ \<notin> set (name r)" and "DQ \<notin> set (email r)" by blast
    then show "parse_line 0 1 2 (row r) = r"
      unfolding row_def by (rule parse_line_row)
  qed
  finally show ?thesis .
qed

theorem parseCSV_toCSV_without_quotes_witness:
  "parseCSV (toCSV [\<lparr>name = ''A,B'', email = ''x@y.com'', id' = Num (- 12)\<rparr>,
                    \<lparr>name = '' '', email = [], id' = Num 0\<rparr>])
     = [\<lparr>name = ''A,B'', email = ''x@y.com'', id' = Num (- 12)\<rparr>,
        \<lparr>name = '' '', email = [], id' = Num 0\<rparr>]"
  by (rule parseCSV_toCSV_without_quotes) simp





subsection \<open>Bulk delete\<close>

text \<open>
  C3. The claim is that a bulk delete in which one call fails, a response with a
  status outside 200--299 included, restores the removed records and is reported as
  failed. \<open>removeSelected\<close> never reads \<open>res.ok\<close>: with the answers 200, 500, 200
  for the ids 1, 2, 3 the three records stay removed and the toast reports success.
\<close>

theorem removeSelected_ignores_http_status:
  "users (removeSelected_resolve
            (fst (fst (removeSelected_begin sample_selection)))
            (snd (fst (removeSelected_begin sample_selection)))
            [Response 200 (Inr ()), Response 500 (Inr ()), Response 200 (Inr ())]
            (snd (removeSelected_begin sample_selection))) = [] \<and>
   map toast_type (items (removeSelected_resolve
            (fst (fst (removeSelected_begin sample_selection)))
            (snd (fst (removeSelected_begin sample_selection)))
            [Response 200 (Inr ()), Response 500 (Inr ()), Response 200 (Inr ())]
            (snd (removeSelected_begin sample_selection)))) = [Success] \<and>
   map msg (items (removeSelected_resolve
            (fst (fst (removeSelected_begin sample_selection)))
            (snd (fst (removeSelected_begin sample_selection)))
            [Response 200 (Inr ()), Response 500 (Inr ()), Response 200 (Inr ())]
            (snd (removeSelected_begin sample_selection)))) = [''Deleted 3 user(s)'']"
  by code_simp

text \<open>
  C10. A bulk delete empties the selection together with the optimistic removal;
  the second half of \<open>removeSelected\<close> never writes the selection, so it stays
  empty, also when a rejected call puts every removed record back.
\<close>

theorem removeSelected_clears_selection:
  "selected (snd (removeSelected_begin st)) = [] \<and>
   selected (removeSelected_resolve ids prev rs st') = selected st' \<and>
   (list_ex is_rejected rs \<longrightarrow>
      users (removeSelected_resolve (fst (fst (removeSelected_begin st)))
               (snd (fst (removeSelected_begin st))) rs (snd (removeSelected_begin st))) = users st \<and>
      selected (removeSelected_resolve (fst (fst (removeSelected_begin st)))
               (snd (fst (removeSelected_begin st))) rs (snd (removeSelected_begin st))) = [])"
  by (auto simp: removeSelected_begin_def removeSelected_resolve_def push_def Let_def)

theorem removeSelected_clears_selection_witness:
  "list_ex is_rejected [Response 200 (Inr ()), Rejected ''Failed to fetch''] \<and>
   users (removeSelected_resolve
            (fst (fst (removeSelected_begin (sample_state\<lparr>selected := [Num 1, Num 3]\<rparr>))))
            (snd (fst (removeSelected_begin (sample_state\<lparr>selected := [Num 1, Num 3]\<rparr>))))
            [Response 200 (Inr ()), Rejected ''Failed to fetch'']
            (snd (removeSelected_begin (sample_state\<lparr>selected := [Num 1, Num 3]\<rparr>))))
     = sample_users \<and>
   selected (removeSelected_resolve
            (fst (fst (removeSelected_begin (sample_state\<lparr>selected := [Num 1, Num 3]\<rparr>))))
            (snd (fst (removeSelected_begin (sample_state\<lparr>selected := [Num 1, Num 3]\<rparr>))))
            [Response 200 (Inr ()), Rejected ''Failed to fetch'']
            (snd (removeSelected_begin (sample_state\<lparr>selected := [Num 1, Num 3]\<rparr>))))
     = []"
proof -
  have r: "list_ex is_rejected [Response 200 (Inr ()), Rejected ''Failed to fetch'']"
    by (simp add: is_rejected_def)
  have u: "users (sample_state\<lparr>selected := [Num 1, Num 3]\<rparr>) = sample_users"
    by (simp add: sample_state_def)
  note t = removeSelected_clears_selection
         [of "sample_state\<lparr>selected := [Num 1, Num 3]\<rparr>" "[]" "[]"
             "[Response 200 (Inr ()), Rejected ''Failed to fetch'']" sample_state,
          THEN conjunct2, THEN conjunct2, THEN mp, OF r]
  from t r show ?thesis unfolding u by (intro conjI) (erule conjunct1 conjunct2 | assumption)+
qed

text \<open>
  X4. When one of the calls of a bulk delete is rejected (a transport failure), the
  list of records is again the whole list from before the bulk delete, and an error
  toast \<open>Bulk delete failed\<close> is added.
\<close>

theorem removeSelected_rejected_restores:
  assumes "list_ex is_rejected rs"
  shows "users (removeSelected_resolve (fst (fst (removeSelected_begin st)))
                  (snd (fst (removeSelected_begin st))) rs st') = users st \<and>
         map (\<lambda>t. (toast_type t, msg t))
             (items (removeSelected_resolve (fst (fst (removeSelected_begin st)))
                  (snd (fst (removeSelected_begin st))) rs st'))
           = map (\<lambda>t. (toast_type t, msg t)) (items st') @ [(Error, ''Bulk delete failed'')]"
  using assms by (simp add: removeSelected_resolve_def removeSelected_begin_def Let_def push_def)

theorem removeSelected_rejected_restores_witness:
  "list_ex is_rejected [Response 200 (Inr ()), Rejected ''Failed to fetch''] \<and>
   users (removeSelected_resolve
            (fst (fst (removeSelected_begin (sample_state\<lparr>selected := [Num 1, Num 3]\<rparr>))))
            (snd (fst (removeSelected_begin (sample_state\<lparr>selected := [Num 1, Num 3]\<rparr>))))
            [Response 200 (Inr ()), Rejected ''Failed to fetch'']
            (snd (removeSelected_begin (sample_state\<lparr>selected := [Num 1, Num 3]\<rparr>))))
     = users (sample_state\<lparr>selected := [Num 1, Num 3]\<rparr>)"
proof -
  have r: "list_ex is_rejected [Response 200 (Inr ()), Rejected ''Failed to fetch'']"
    by (simp add: is_rejected_def)
  from removeSelected_rejected_restores [OF r] r show ?thesis by blast
qed

subsection \<open>Optimistic update and rollback\<close>

text \<open>
  C4. When a record is stored under an id, \<open>updateUser\<close> writes the new name and
  email into that record at once, before the call has settled; when the call then
  fails (the promise is rejected, or the status is outside 200--299), the record
  under that id is again the one from before the update.
\<close>

theorem updateUser_optimistic_then_reverted:
  assumes "find (\<lambda>u. strict_eq (id' u) i) (users st) = Some u"
  shows "find (\<lambda>u. strict_eq (id' u) i) (users (snd (updateUser_begin i values st)))
           = Some (u\<lparr> name := name values, email := email values \<rparr>) \<and>
         (call_failed r \<longrightarrow>
            find (\<lambda>u. strict_eq (id' u) i)
                 (users (updateUser_resolve (fst (updateUser_begin i values st)) i r
                           (snd (updateUser_begin i values st)))) = Some u)"
proof -
  have "find (\<lambda>u. strict_eq (id' u) i)
          (map (\<lambda>u. if strict_eq (id' u) i then u\<lparr> name := name values, email := email values \<rparr> else u)
               (users st))
        = map_option (\<lambda>u. u\<lparr> name := name values, email := email values \<rparr>)
            (find (\<lambda>u. strict_eq (id' u) i) (users st))"
    by (rule find_map_if) simp
  with assms have a: "find (\<lambda>u. strict_eq (id' u) i) (users (snd (updateUser_begin i values st)))
           = Some (u\<lparr> name := name values, email := email values \<rparr>)"
    by (simp add: updateUser_begin_def Let_def)
  have p: "fst (updateUser_begin i values st) = users st"
    by (simp add: updateUser_begin_def Let_def)
  show ?thesis using a assms by (simp add: users_rollback_update p)
qed

theorem updateUser_optimistic_then_reverted_witness:
  "find (\<lambda>u. strict_eq (id' u) (Num 2)) (users sample_state)
     = Some \<lparr>name = ''Bob'', email = ''bob@x.com'', id' = Num 2\<rparr> \<and>
   call_failed (Rejected ''Failed to fetch'' :: User fetch_result) \<and>
   find (\<lambda>u. strict_eq (id' u) (Num 2))
        (users (snd (updateUser_begin (Num 2) \<lparr>name = ''Bobby'', email = ''bobby@x.com''\<rparr> sample_state)))
     = Some \<lparr>name = ''Bobby'', email = ''bobby@x.com'', id' = Num 2\<rparr> \<and>
   find (\<lambda>u. strict_eq (id' u) (Num 2))
        (users (updateUser_resolve
                  (fst (updateUser_begin (Num 2) \<lparr>name = ''Bobby'', email = ''bobby@x.com''\<rparr> sample_state))
                  (Num 2) (Rejected ''Failed to fetch'')
                  (snd (updateUser_begin (Num 2) \<lparr>name = ''Bobby'', email = ''bobby@x.com''\<rparr> sample_state))))
     = Some \<lparr>name = ''Bob'', email = ''bob@x.com'', id' = Num 2\<rparr>"
proof -
  have h: "find (\<lambda>u. strict_eq (id' u) (Num 2)) (users sample_state)
             = Some \<lparr>name = ''Bob'', email = ''bob@x.com'', id' = Num 2\<rparr>"
    by (simp add: sample_state_def sample_users_def strict_eq_def)
  have f: "call_failed (Rejected ''Failed to fetch'' :: User fetch_result)"
    by (simp add: call_failed_def)
  note t = updateUser_optimistic_then_reverted
             [OF h, of "\<lparr>name = ''Bobby'', email = ''bobby@x.com''\<rparr>" "Rejected ''Failed to fetch''"]
  from t have a: "find (\<lambda>u. strict_eq (id' u) (Num 2))
        (users (snd (updateUser_begin (Num 2) \<lparr>name = ''Bobby'', email = ''bobby@x.com''\<rparr> sample_state)))
     = Some \<lparr>name = ''Bobby'', email = ''bobby@x.com'', id' = Num 2\<rparr>"
    by simp
  from t f have b: "find (\<lambda>u. strict_eq (id' u) (Num 2))
        (users (updateUser_resolve
                  (fst (updateUser_begin (Num 2) \<lparr>name = ''Bobby'', email = ''bobby@x.com''\<rparr> sample_state))
                  (Num 2) (Rejected ''Failed to fetch'')
                  (snd (updateUser_begin (Num 2) \<lparr>name = ''Bobby'', email = ''bobby@x.com''\<rparr> sample_state))))
     = Some \<lparr>name = ''Bob'', email = ''bob@x.com'', id' = Num 2\<rparr>"
    by blast
  from h f a b show ?thesis by (intro conjI)
qed

text \<open>
  X6. A failed update and a failed delete are surfaced: each adds one error toast.
\<close>

theorem failed_mutation_adds_error_toast:
  "call_failed r \<Longrightarrow> call_failed r' \<Longrightarrow>
     map toast_type (items (updateUser_resolve prev i r st)) = map toast_type (items st) @ [Error] \<and>
     map toast_type (items (removeUser_resolve prev r' st)) = map toast_type (items st) @ [Error]"
  by (auto simp: call_failed_def updateUser_resolve_def removeUser_resolve_def push_def
       split: fetch_result.splits)

theorem failed_mutation_adds_error_toast_witness:
  "call_failed (Response 500 (Inl ''no body'') :: User fetch_result) \<and>
   call_failed (Rejected ''Failed to fetch'' :: unit fetch_result) \<and>
   map toast_type (items (updateUser_resolve sample_users (Num 1) (Response 500 (Inl ''no body''))
                            sample_state)) = map toast_type (items sample_state) @ [Error] \<and>
   map toast_type (items (removeUser_resolve sample_users (Rejected ''Failed to fetch'')
                            sample_state)) = map toast_type (items sample_state) @ [Error]"
proof -
  have f: "call_failed (Response 500 (Inl ''no body'') :: User fetch_result)"
    by (simp add: call_failed_def ok_def)
  have g: "call_failed (Rejected ''Failed to fetch'' :: unit fetch_result)"
    by (simp add: call_failed_def)
  from failed_mutation_adds_error_toast [OF f g] f g show ?thesis by blast
qed

text \<open>
  C2. The claim is that the rollback of a failed mutation restores the snapshot of
  that mutation alone and leaves the change of a concurrent mutation on another id
  in place. The rollback is \<open>setUsers(prev)\<close>, where \<open>prev\<close> is the whole list
  at the time the failing mutation was submitted: an update of id 2 that was
  applied after the update of id 1 was submitted is undone when the update of id 1
  fails.
\<close>

theorem rollback_discards_concurrent_update:
  "users (snd (updateUser_begin (Num 2) edit_bob (snd (updateUser_begin (Num 1) edit_ann sample_state))))
     = [\<lparr>name = ''Anna'', email = ''anna@x.com'', id' = Num 1\<rparr>,
        \<lparr>name = ''Bobby'', email = ''bobby@x.com'', id' = Num 2\<rparr>,
        \<lparr>name = ''Cyd'', email = ''cyd@x.com'', id' = Num 3\<rparr>] \<and>
   users (updateUser_resolve (fst (updateUser_begin (Num 1) edit_ann sample_state)) (Num 1)
            (Rejected ''Failed to fetch'')
            (snd (updateUser_begin (Num 2) edit_bob (snd (updateUser_begin (Num 1) edit_ann sample_state)))))
     = [\<lparr>name = ''Ann'', email = ''ann@x.com'', id' = Num 1\<rparr>,
        \<lparr>name = ''Bob'', email = ''bob@x.com'', id' = Num 2\<rparr>,
        \<lparr>name = ''Cyd'', email = ''cyd@x.com'', id' = Num 3\<rparr>]"
  by code_simp

text \<open>
  C2, as the code has it: when the call of an update or of a delete fails, the
  rollback makes the list of records equal to the whole list held by the page when
  that mutation was submitted, whatever state \<open>st'\<close> the page has reached in the
  meantime. The failing id is back at its own earlier record; so is every other id.
\<close>

theorem rollback_restores_list_at_submission:
  "call_failed r \<Longrightarrow> call_failed r' \<Longrightarrow>
     users (updateUser_resolve (fst (updateUser_begin i values st)) i r st') = users st \<and>
     users (removeUser_resolve (fst (removeUser_begin i st)) r' st') = users st"
  by (simp add: users_rollback_update users_rollback_remove updateUser_begin_def
        removeUser_begin_def Let_def)

theorem rollback_restores_list_at_submission_witness:
  "call_failed (Rejected ''Failed to fetch'' :: User fetch_result) \<and>
   call_failed (Response 404 (Inr ())) \<and>
   users (updateUser_resolve
            (fst (updateUser_begin (Num 1) \<lparr>name = ''Anna'', email = ''anna@x.com''\<rparr> sample_state))
            (Num 1) (Rejected ''Failed to fetch'') (initial_state None)) = users sample_state \<and>
   users (removeUser_resolve (fst (removeUser_begin (Num 1) sample_state))
            (Response 404 (Inr ())) (initial_state None)) = users sample_state"
proof -
  have f: "call_failed (Rejected ''Failed to fetch'' :: User fetch_result)"
    by (simp add: call_failed_def)
  have g: "call_failed (Response 404 (Inr ()))"
    by (simp add: call_failed_def ok_def)
  from rollback_restores_list_at_submission [OF f g] f g show ?thesis by blast
qed

subsection \<open>Initial load\<close>



text \<open>
  X5. A load that succeeds makes the fetched list the list of records, stores it in
  the module cache and in the local snapshot, and ends loaded without an error and
  without a toast.
\<close>

theorem fetchUsers_success:
  assumes "fetchUsers_try r = Inr data"
  shows "users (fetchUsers r st) = data \<and> cache (fetchUsers r st) = Some data \<and>
         localStorage (fetchUsers r st) = Some data \<and> error (fetchUsers r st) = None \<and>
         \<not> loading (fetchUsers r st) \<and> items (fetchUsers r st) = items st"
  using assms by (simp add: fetchUsers_def fetchUsers_resolve_def fetchUsers_begin_def)

theorem fetchUsers_success_witness:
  "fetchUsers_try (Response 200 (Inr sample_users)) = Inr sample_users \<and>
   users (fetchUsers (Response 200 (Inr sample_users)) (initial_state None)) = sample_users \<and>
   localStorage (fetchUsers (Response 200 (Inr sample_users)) (initial_state None))
     = Some sample_users"
proof -
  have h: "fetchUsers_try (Response 200 (Inr sample_users)) = Inr sample_users"
    by (simp add: fetchUsers_try_def ok_def)
  from fetchUsers_success [OF h, of "initial_state None"] h show ?thesis by blast
qed

subsection \<open>Filtering\<close>

text \<open>
  X2. The rows of the filtered and sorted list are the records whose lower-cased
  name or email contains the trimmed, lower-cased query; with an empty query they
  are all the records. Sorting neither adds nor drops a row.
\<close>

theorem filtered_rows:
  "set (filtered collator usrs query sortBy sortDir)
     = {u \<in> set usrs. toLowerCase (trim query) = [] \<or>
                       includes_str (toLowerCase (name u)) (toLowerCase (trim query)) \<or>
                       includes_str (toLowerCase (email u)) (toLowerCase (trim query))} \<and>
   length (filtered collator usrs query sortBy sortDir) \<le> length usrs \<and>
   (toLowerCase (trim query) = [] \<longrightarrow>
      length (filtered collator usrs query sortBy sortDir) = length usrs)"
  by (auto simp: filtered_def Let_def set_sort_by length_sort_by)

theorem filtered_rows_witness:
  "toLowerCase (trim '' '') = [] \<and>
   length (filtered (\<lambda>a b. 0) sample_users '' '' Key_name asc) = 3"
proof -
  have e: "toLowerCase (trim '' '') = []" by code_simp
  from filtered_rows [of "\<lambda>a b. 0" sample_users "'' ''" Key_name asc] e
  have "length (filtered (\<lambda>a b. 0) sample_users '' '' Key_name asc) = length sample_users"
    by blast
  with e show ?thesis by (simp add: sample_users_def)
qed

text \<open>
  X3. The query \<open>jane\<close> matches the record with the email \<open>Jane.Doe@X.com\<close>.
\<close>

theorem filtered_ignores_case:
  "filtered (\<lambda>a b. 0)
      [\<lparr>name = ''Al'', email = ''al@x.com'', id' = Num 1\<rparr>,
       \<lparr>name = ''J. D.'', email = ''Jane.Doe@X.com'', id' = Num 2\<rparr>] ''jane'' Key_id asc
     = [\<lparr>name = ''J. D.'', email = ''Jane.Doe@X.com'', id' = Num 2\<rparr>]"
  by code_simp

subsection \<open>Pagination\<close>



subsection \<open>Undo of a delete\<close>

text \<open>
  C7. The claim is that an undo token can be used at most once. The undo is the
  action of a toast, and running it leaves the toast in place: a second click
  within the 4000 ms inserts the record a second time.
\<close>

theorem undo_usable_twice:
  "users (snd (removeUser_begin (Num 2) sample_state))
     = [\<lparr>name = ''Ann'', email = ''ann@x.com'', id' = Num 1\<rparr>,
        \<lparr>name = ''Cyd'', email = ''cyd@x.com'', id' = Num 3\<rparr>] \<and>
   map_option users
      (Option.bind (click_action 1 (snd (removeUser_begin (Num 2) sample_state))) (click_action 1))
     = Some [\<lparr>name = ''Bob'', email = ''bob@x.com'', id' = Num 2\<rparr>,
             \<lparr>name = ''Bob'', email = ''bob@x.com'', id' = Num 2\<rparr>,
             \<lparr>name = ''Ann'', email = ''ann@x.com'', id' = Num 1\<rparr>,
             \<lparr>name = ''Cyd'', email = ''cyd@x.com'', id' = Num 3\<rparr>]"
  by code_simp

text \<open>
  C7, as the code has it: \<open>removeUser\<close> removes the record \<open>r\<close> stored under the
  id and shows a toast with the undo action, whose timer is due after 4000 ms. The
  action can be clicked as long as the toast is mounted, that is, for 4000 ms and
  then for the \<open>exit_ms\<close> of its exit animation: during all that time a click puts
  \<open>r\<close> at the head of the list, and a second click puts it there once more. From
  4000 ms on the toast is no longer in the list of toasts and its timer has been
  discarded, so that the timer runs once. Once the exit animation has ended there
  is no action to click, and the list stays without \<open>r\<close>. Nothing reports
  success or failure.
\<close>

theorem undo_window:
  assumes wf: "counter_ahead st"
    and present: "find (\<lambda>u. strict_eq (id' u) i) (users st) = Some r"
  shows
   "(dt < 4000 + exit_ms \<longrightarrow>
       map_option users (click_action (idRef st) (advance exit_ms dt (snd (removeUser_begin i st))))
         = Some (r # filter (\<lambda>u. \<not> strict_eq (id' u) i) (users st)) \<and>
       map_option users
          (Option.bind (click_action (idRef st) (advance exit_ms dt (snd (removeUser_begin i st))))
                       (click_action (idRef st)))
         = Some (r # r # filter (\<lambda>u. \<not> strict_eq (id' u) i) (users st))) \<and>
    (4000 \<le> dt \<longrightarrow>
       \<not> list_ex (\<lambda>x. toast_id x = idRef st) (items (advance exit_ms dt (snd (removeUser_begin i st)))) \<and>
       \<not> list_ex (\<lambda>(d, j). j = idRef st) (timers (advance exit_ms dt (snd (removeUser_begin i st))))) \<and>
    (4000 + exit_ms \<le> dt \<longrightarrow>
       click_action (idRef st) (advance exit_ms dt (snd (removeUser_begin i st))) = None \<and>
       users (advance exit_ms dt (snd (removeUser_begin i st)))
         = filter (\<lambda>u. \<not> strict_eq (id' u) i) (users st))"
proof (intro conjI impI)
  let ?s = "advance exit_ms dt (snd (removeUser_begin i st))"
  let ?t = "\<lparr> toast_id = idRef st, toast_type = Info, msg = ''User deleted'',
               actionLabel = Some ''Undo'', action = Some (Undo (Some r)) \<rparr>"
  note f = undo_toast_after_begin [OF wf, where e = exit_ms and dt = dt and i = i, unfolded present]
  have u: "users ?s = filter (\<lambda>u. \<not> strict_eq (id' u) i) (users st)"
    by (simp add: advance_fields removeUser_begin_fields)
  {
    assume dt: "dt < 4000 + exit_ms"
    with f(1) have m: "find (\<lambda>x. toast_id x = idRef st) (mounted ?s) = Some ?t" by simp
    from click_action_twice [OF m, of r "''Undo''"] u
    show "map_option users (click_action (idRef st) ?s)
         = Some (r # filter (\<lambda>u. \<not> strict_eq (id' u) i) (users st))"
      and "map_option users (Option.bind (click_action (idRef st) ?s) (click_action (idRef st)))
         = Some (r # r # filter (\<lambda>u. \<not> strict_eq (id' u) i) (users st))"
      by simp_all
  }
  {
    assume dt: "4000 \<le> dt"
    from f(2) [OF dt] show "\<not> list_ex (\<lambda>x. toast_id x = idRef st) (items ?s)" .
    from f(3) [OF dt] show "\<not> list_ex (\<lambda>(d, j). j = idRef st) (timers ?s)" .
  }
  {
    assume dt: "4000 + exit_ms \<le> dt"
    with f(1) have "find (\<lambda>x. toast_id x = idRef st) (mounted ?s) = None" by simp
    then show "click_action (idRef st) ?s = None" by (rule click_action_none)
    show "users ?s = filter (\<lambda>u. \<not> strict_eq (id' u) i) (users st)" by (rule u)
  }
qed

theorem undo_window_witness:
  "counter_ahead sample_state \<and>
   find (\<lambda>u. strict_eq (id' u) (Num 2)) (users sample_state) = Some bob \<and>
   (4100::nat) < 4000 + 300 \<and> (4000::nat) \<le> 4100 \<and>
   map_option users
      (click_action (idRef sample_state)
         (advance 300 4100 (snd (removeUser_begin (Num 2) sample_state))))
     = Some (bob # filter (\<lambda>u. \<not> strict_eq (id' u) (Num 2)) (users sample_state)) \<and>
   \<not> list_ex (\<lambda>x. toast_id x = idRef sample_state)
        (items (advance 300 4100 (snd (removeUser_begin (Num 2) sample_state)))) \<and>
   (4000::nat) + 300 \<le> 4300 \<and>
   click_action (idRef sample_state)
      (advance 300 4300 (snd (removeUser_begin (Num 2) sample_state))) = None"
proof -
  have w: "counter_ahead sample_state"
    by (simp add: counter_ahead_def mounted_def sample_state_def initial_state_def)
  have h: "find (\<lambda>u. strict_eq (id' u) (Num 2)) (users sample_state) = Some bob"
    by (simp add: sample_state_def sample_users_def strict_eq_def bob_def)
  have a: "(4100::nat) < 4000 + 300" and b: "(4000::nat) \<le> 4100" and c: "(4000::nat) + 300 \<le> 4300"
    by simp_all
  from undo_window [OF w h, where dt = 4100 and exit_ms = 300] a
  have 1: "map_option users
      (click_action (idRef sample_state)
         (advance 300 4100 (snd (removeUser_begin (Num 2) sample_state))))
     = Some (bob # filter (\<lambda>u. \<not> strict_eq (id' u) (Num 2)) (users sample_state))"
    by blast
  from undo_window [OF w h, where dt = 4100 and exit_ms = 300] b
  have 2: "\<not> list_ex (\<lambda>x. toast_id x = idRef sample_state)
        (items (advance 300 4100 (snd (removeUser_begin (Num 2) sample_state))))"
    by blast
  from undo_window [OF w h, where dt = 4300 and exit_ms = 300] c
  have 3: "click_action (idRef sample_state)
      (advance 300 4300 (snd (removeUser_begin (Num 2) sample_state))) = None"
    by blast
  from w h a b 1 2 c 3 show ?thesis by (intro conjI)
qed

subsection \<open>Uniqueness of ids\<close>




end
